theory Spec2Isabelle
  imports Complex_Main
begin

section \<open>JavaScript numbers and the option validators of limiter.ts\<close>

text \<open>
  A JavaScript \<^verbatim>\<open>number\<close> is a finite value, one of the two infinities, or NaN.
  Every finite double is a rational, and the limiter only compares its numbers (it never
  does arithmetic on \<^verbatim>\<open>limit\<close>, \<^verbatim>\<open>maxQueue\<close> or a timeout), so a finite
  number is modelled by its rational value. The counters \<^verbatim>\<open>active\<close> and
  \<^verbatim>\<open>queue.length\<close> are integers far below \<open>2^53\<close> and are modelled as \<open>int\<close> and
  \<open>nat\<close>.
\<close>

datatype jsnum = Fin rat | PosInf | NegInf | NaN

fun isFinite :: "jsnum \<Rightarrow> bool" where
  "isFinite (Fin _) = True"
| "isFinite _ = False"

text \<open>The IEEE comparisons \<^verbatim>\<open><\<close> and \<^verbatim>\<open><=\<close>: every comparison with NaN is false.\<close>

fun js_lt :: "jsnum \<Rightarrow> jsnum \<Rightarrow> bool" where
  "js_lt NaN _ = False"
| "js_lt _ NaN = False"
| "js_lt (Fin a) (Fin b) = (a < b)"
| "js_lt (Fin _) PosInf = True"
| "js_lt (Fin _) NegInf = False"
| "js_lt PosInf _ = False"
| "js_lt NegInf NegInf = False"
| "js_lt NegInf _ = True"

fun js_le :: "jsnum \<Rightarrow> jsnum \<Rightarrow> bool" where
  "js_le NaN _ = False"
| "js_le _ NaN = False"
| "js_le (Fin a) (Fin b) = (a \<le> b)"
| "js_le (Fin _) PosInf = True"
| "js_le (Fin _) NegInf = False"
| "js_le PosInf PosInf = True"
| "js_le PosInf _ = False"
| "js_le NegInf _ = True"

datatype error =
    RangeError
  | AbortError
  | QueueOverflowError
  | QueueTimeoutError
  | IdleTimeoutError
  | Thrown nat

text \<open>
  \<open>Thrown n\<close> stands for an arbitrary value thrown by a task; a task may also throw
  any of the other errors. Each validator returns the error it throws, if any.
\<close>

definition assertValidLimit :: "jsnum \<Rightarrow> error option" where
  "assertValidLimit limit =
     (if \<not> isFinite limit \<or> js_le limit (Fin 0) then Some RangeError else None)"

definition assertValidMaxQueue :: "jsnum \<Rightarrow> error option" where
  "assertValidMaxQueue maxQueue =
     (if (maxQueue \<noteq> PosInf \<and> \<not> isFinite maxQueue) \<or> js_lt maxQueue (Fin 0)
      then Some RangeError else None)"

definition assertValidTimeoutMs :: "jsnum option \<Rightarrow> error option" where
  "assertValidTimeoutMs ms =
     (case ms of
        None \<Rightarrow> None
      | Some m \<Rightarrow> if \<not> isFinite m \<or> js_lt m (Fin 0) then Some RangeError else None)"

section \<open>The objects of the limiter\<close>

text \<open>
  Objects that the code shares by reference live in stores indexed by a number:
  \<^item> a call of \<^verbatim>\<open>run\<close> that got past the checks has a call number; if it had to wait,
    its queue entry carries the same number, so a smaller number is an earlier arrival;
  \<^item> a call of \<^verbatim>\<open>onIdle\<close> that had to wait has a waiter number;
  \<^item> an \<^verbatim>\<open>AbortSignal\<close> supplied by a caller has a signal number.
\<close>

type_synonym eid = nat
type_synonym wid = nat
type_synonym sid = nat

text \<open>The callbacks registered on a signal, and the timers started by the limiter.\<close>

datatype listener = EntryAbort eid | IdleAbort wid

datatype timer = EntryTimer eid | IdleTimer wid

text \<open>
  The closures pushed on a cleanup list: the function returned by
  \<^verbatim>\<open>addAbortHandler\<close>, \<^verbatim>\<open>() => clearTimeout(t)\<close>, and
  \<^verbatim>\<open>() => this.idleWaiters.delete(waiter)\<close>.
\<close>

datatype cleanup_fn =
    RemoveAbortListener sid listener
  | ClearTimeout timer
  | DeleteIdleWaiter wid

text \<open>
  A queue entry: \<open>settled\<close> is the variable closed over by its \<^verbatim>\<open>Defer\<close>;
  \<open>e_signal\<close> and \<open>e_queueTimeoutMs\<close> are the arguments of \<^verbatim>\<open>waitForTurn\<close> that
  its closures capture.
\<close>

record entry =
  settled :: bool
  removed :: bool
  cleanup :: "cleanup_fn list"
  e_signal :: "sid option"
  e_queueTimeoutMs :: "jsnum option"

text \<open>The frame of one \<^verbatim>\<open>run\<close> call: waiting in \<^verbatim>\<open>acquire\<close>, admitted (the task
  is running, up to the \<^verbatim>\<open>finally\<close>), or finished with the outcome of its promise.\<close>

datatype phase = Waiting | Running | Finished "error + nat"

text \<open>The frame of one waiting \<^verbatim>\<open>onIdle\<close> call.\<close>

record idle =
  i_done :: bool
  i_cleanups :: "cleanup_fn list"
  i_result :: "(error + unit) option"

record state =
  active :: int
  queue :: "eid list"
  limit :: jsnum
  maxQueue :: jsnum
  defaultQueueTimeoutMs :: "jsnum option"
  defaultSignal :: "sid option"
  idleWaiters :: "wid list"
  entries :: "eid \<Rightarrow> entry"
  runs :: "eid \<Rightarrow> phase option"
  next_run :: nat
  idles :: "wid \<Rightarrow> idle"
  next_idle :: nat
  aborted :: "sid \<Rightarrow> bool"
  listeners :: "sid \<Rightarrow> listener list"
  timers :: "timer list"
  invoked :: "cleanup_fn list"

text \<open>
  The first seven fields are the fields of class \<^verbatim>\<open>Limiter\<close> (\<open>idleWaiters\<close> is a
  \<^verbatim>\<open>Set\<close>, kept in insertion order). \<open>entries\<close>, \<open>runs\<close> and \<open>idles\<close> are the
  stores. \<open>aborted\<close>, \<open>listeners\<close> and \<open>timers\<close> are the environment: the flag and
  the \<^verbatim>\<open>abort\<close> listeners of each signal, and the timers that are pending. \<open>invoked\<close>
  records every call of a cleanup closure, in order; no operation reads it.
\<close>

record LimiterOptions =
  lo_maxQueue :: "jsnum option"
  lo_queueTimeoutMs :: "jsnum option"
  lo_signal :: "sid option"

record RunOptions =
  ro_signal :: "sid option"
  ro_queueTimeoutMs :: "jsnum option"

record IdleOptions =
  io_signal :: "sid option"
  io_timeoutMs :: "jsnum option"

definition empty_entry :: entry where
  "empty_entry = \<lparr>settled = False, removed = False, cleanup = [],
     e_signal = None, e_queueTimeoutMs = None\<rparr>"

definition empty_idle :: idle where
  "empty_idle = \<lparr>i_done = False, i_cleanups = [], i_result = None\<rparr>"

text \<open>The constructor: validation, then the defaults of the destructured options.\<close>

definition Limiter :: "jsnum \<Rightarrow> LimiterOptions \<Rightarrow> error + state" where
  "Limiter lmt options =
     (case assertValidLimit lmt of
        Some e \<Rightarrow> Inl e
      | None \<Rightarrow>
          (let mq = (case lo_maxQueue options of None \<Rightarrow> PosInf | Some m \<Rightarrow> m) in
           case assertValidMaxQueue mq of
             Some e \<Rightarrow> Inl e
           | None \<Rightarrow>
               (case assertValidTimeoutMs (lo_queueTimeoutMs options) of
                  Some e \<Rightarrow> Inl e
                | None \<Rightarrow>
                    Inr \<lparr>active = 0, queue = [], limit = lmt, maxQueue = mq,
                         defaultQueueTimeoutMs = lo_queueTimeoutMs options,
                         defaultSignal = lo_signal options,
                         idleWaiters = [],
                         entries = (\<lambda>_. empty_entry),
                         runs = (\<lambda>_. None),
                         next_run = 0,
                         idles = (\<lambda>_. empty_idle),
                         next_idle = 0,
                         aborted = (\<lambda>_. False),
                         listeners = (\<lambda>_. []),
                         timers = [],
                         invoked = []\<rparr>)))"

definition activeCount :: "state \<Rightarrow> int" where
  "activeCount s = active s"

definition pendingCount :: "state \<Rightarrow> nat" where
  "pendingCount s = length (queue s)"

section \<open>Cleanup closures, queue entries and the Defer\<close>

text \<open>
  Calling a cleanup closure. \<^verbatim>\<open>removeEventListener\<close>, \<^verbatim>\<open>clearTimeout\<close> and
  \<^verbatim>\<open>Set.delete\<close> take out the one matching element (an element occurs at most once
  in each of these collections) and do nothing when there is none.
\<close>

definition call_cleanup :: "cleanup_fn \<Rightarrow> state \<Rightarrow> state" where
  "call_cleanup f s =
     (let s' = s\<lparr>invoked := invoked s @ [f]\<rparr> in
      case f of
        RemoveAbortListener sg l \<Rightarrow>
          s'\<lparr>listeners := (listeners s')(sg := removeAll l (listeners s' sg))\<rparr>
      | ClearTimeout t \<Rightarrow> s'\<lparr>timers := removeAll t (timers s')\<rparr>
      | DeleteIdleWaiter w \<Rightarrow> s'\<lparr>idleWaiters := removeAll w (idleWaiters s')\<rparr>)"

text \<open>\<^verbatim>\<open>makeQueueEntry(defer)\<close>: a fresh entry, and its \<^verbatim>\<open>remove\<close> method.\<close>

definition makeQueueEntry :: "sid option \<Rightarrow> jsnum option \<Rightarrow> entry" where
  "makeQueueEntry sg ms =
     \<lparr>settled = False, removed = False, cleanup = [], e_signal = sg, e_queueTimeoutMs = ms\<rparr>"

definition entry_remove :: "eid \<Rightarrow> state \<Rightarrow> state" where
  "entry_remove e s =
     (let en = entries s e in
      if removed en then s
      else
        (let fns = cleanup en;
             s1 = s\<lparr>entries := (entries s)(e := en\<lparr>removed := True, cleanup := []\<rparr>)\<rparr>
         in fold call_cleanup fns s1))"

text \<open>
  The two functions of the \<^verbatim>\<open>Defer\<close> built in \<^verbatim>\<open>waitForTurn\<close>. Settling the
  promise resumes the \<^verbatim>\<open>run\<close> call that awaits it: resolved, the call is admitted;
  rejected, the call fails with the same error (\<^verbatim>\<open>await this.acquire\<close> stands outside
  the \<^verbatim>\<open>try\<close>).
\<close>

definition defer_resolve :: "eid \<Rightarrow> state \<Rightarrow> bool \<times> state" where
  "defer_resolve e s =
     (if settled (entries s e) then (False, s)
      else (True, s\<lparr>entries := (entries s)(e := (entries s e)\<lparr>settled := True\<rparr>),
                     runs := (runs s)(e \<mapsto> Running)\<rparr>))"

definition defer_reject :: "eid \<Rightarrow> error \<Rightarrow> state \<Rightarrow> bool \<times> state" where
  "defer_reject e err s =
     (if settled (entries s e) then (False, s)
      else (True, s\<lparr>entries := (entries s)(e := (entries s e)\<lparr>settled := True\<rparr>),
                     runs := (runs s)(e \<mapsto> Finished (Inl err))\<rparr>))"

section \<open>Idle waiters\<close>

text \<open>\<^verbatim>\<open>finish(err?)\<close> of the \<^verbatim>\<open>onIdle\<close> call with waiter number \<open>w\<close>.\<close>

definition finish :: "wid \<Rightarrow> error option \<Rightarrow> state \<Rightarrow> state" where
  "finish w err s =
     (let i = idles s w in
      if i_done i then s
      else
        (let fns = i_cleanups i;
             s1 = s\<lparr>idles := (idles s)(w := i\<lparr>i_done := True, i_cleanups := []\<rparr>)\<rparr>;
             s2 = fold call_cleanup fns s1
         in s2\<lparr>idles := (idles s2)(w := (idles s2 w)
                  \<lparr>i_result := Some (case err of Some e \<Rightarrow> Inl e | None \<Rightarrow> Inr ())\<rparr>)\<rparr>))"

definition emitIdleIfNeeded :: "state \<Rightarrow> state" where
  "emitIdleIfNeeded s =
     (if active s \<noteq> 0 \<or> queue s \<noteq> [] then s
      else fold (\<lambda>w. finish w None) (idleWaiters s) s)"

section \<open>Release and hand-off\<close>

fun shiftNext_loop :: "(eid \<Rightarrow> entry) \<Rightarrow> eid list \<Rightarrow> eid option \<times> eid list" where
  "shiftNext_loop es [] = (None, [])"
| "shiftNext_loop es (next # q) =
     (if removed (es next) then shiftNext_loop es q else (Some next, q))"

definition shiftNext :: "state \<Rightarrow> eid option \<times> state" where
  "shiftNext s =
     (let r = shiftNext_loop (entries s) (queue s) in (fst r, s\<lparr>queue := snd r\<rparr>))"

text \<open>Neither \<^verbatim>\<open>next.remove()\<close> nor \<^verbatim>\<open>next.defer.resolve()\<close> touches the queue,
  and a successful \<^verbatim>\<open>shiftNext\<close> shortens it: the loop of \<^verbatim>\<open>release\<close> ends.\<close>

lemma queue_call_cleanup: "queue (call_cleanup f s) = queue s"
  by (simp add: call_cleanup_def Let_def split: cleanup_fn.split)

lemma queue_fold_call_cleanup: "queue (fold call_cleanup fns s) = queue s"
  by (induction fns arbitrary: s) (simp_all add: queue_call_cleanup)

lemma queue_entry_remove: "queue (entry_remove e s) = queue s"
  by (simp add: entry_remove_def Let_def queue_fold_call_cleanup)

lemma queue_defer_resolve: "queue (snd (defer_resolve e s)) = queue s"
  by (simp add: defer_resolve_def)

lemma shiftNext_loop_length: "length (snd (shiftNext_loop es q)) \<le> length q"
  by (induction q) simp_all

lemma shiftNext_loop_Some_length:
  "fst (shiftNext_loop es q) = Some e \<Longrightarrow> length (snd (shiftNext_loop es q)) < length q"
proof (induction q)
  case Nil
  then show ?case by simp
next
  case (Cons x q)
  then show ?case by (cases "removed (es x)") simp_all
qed

lemma shiftNext_Some_length:
  "shiftNext s = (Some e, s1) \<Longrightarrow> length (queue s1) < length (queue s)"
  using shiftNext_loop_Some_length [of "entries s" "queue s" e]
  by (auto simp: shiftNext_def Let_def)

function release :: "state \<Rightarrow> state" where
  "release s =
     (case shiftNext s of
        (None, s1) \<Rightarrow> emitIdleIfNeeded (s1\<lparr>active := active s1 - 1\<rparr>)
      | (Some next, s1) \<Rightarrow>
          (let r = defer_resolve next (entry_remove next s1)
           in if fst r then snd r else release (snd r)))"
  by pat_completeness auto
termination
proof (relation "measure (\<lambda>s. length (queue s))")
  show "wf (measure (\<lambda>s. length (queue s)))" by simp
next
  fix s :: state and x1 x2 x2a xa
  assume "(x1, x2) = shiftNext s" and "x1 = Some x2a"
    and "xa = defer_resolve x2a (entry_remove x2a x2)" and "\<not> fst xa"
  then have "length (queue x2) < length (queue s)"
    using shiftNext_Some_length [of s x2a x2] by simp
  with \<open>xa = defer_resolve x2a (entry_remove x2a x2)\<close>
  show "(snd xa, s) \<in> measure (\<lambda>s. length (queue s))"
    by (simp add: queue_defer_resolve queue_entry_remove)
qed

section \<open>Waiting for a turn\<close>

definition is_aborted :: "sid option \<Rightarrow> state \<Rightarrow> bool" where
  "is_aborted signal s = (case signal of None \<Rightarrow> False | Some sg \<Rightarrow> aborted s sg)"

definition addAbortHandler :: "sid option \<Rightarrow> listener \<Rightarrow> state \<Rightarrow> cleanup_fn option \<times> state" where
  "addAbortHandler signal onAbort s =
     (case signal of
        None \<Rightarrow> (None, s)
      | Some sg \<Rightarrow>
          (Some (RemoveAbortListener sg onAbort),
           s\<lparr>listeners := (listeners s)(sg := listeners s sg @ [onAbort])\<rparr>))"

definition entry_cleanup_push :: "eid \<Rightarrow> cleanup_fn \<Rightarrow> state \<Rightarrow> state" where
  "entry_cleanup_push e f s =
     s\<lparr>entries := (entries s)(e := (entries s e)\<lparr>cleanup := cleanup (entries s e) @ [f]\<rparr>)\<rparr>"

definition removeFromQueue :: "eid \<Rightarrow> state \<Rightarrow> state" where
  "removeFromQueue e s =
     (if removed (entries s e) then s
      else
        (let s1 = entry_remove e s
         in emitIdleIfNeeded (s1\<lparr>queue := remove1 e (queue s1)\<rparr>)))"

text \<open>
  \<^verbatim>\<open>waitForTurn\<close>. The new entry gets the next call number. Time is not modelled: a
  pending timer may fire at any later moment, so the delay is not stored.
\<close>

definition waitForTurn :: "sid option \<Rightarrow> jsnum option \<Rightarrow> state \<Rightarrow> (error + eid) \<times> state" where
  "waitForTurn signal queueTimeoutMs s =
     (if is_aborted signal s then (Inl AbortError, s)
      else
        (let e = next_run s;
             s0 = s\<lparr>entries := (entries s)(e := makeQueueEntry signal queueTimeoutMs),
                     runs := (runs s)(e \<mapsto> Waiting),
                     next_run := Suc e\<rparr>;
             ra = addAbortHandler signal (EntryAbort e) s0;
             s1 = (case fst ra of
                     None \<Rightarrow> snd ra
                   | Some rmAbort \<Rightarrow> entry_cleanup_push e rmAbort (snd ra));
             s2 = (case queueTimeoutMs of
                     None \<Rightarrow> s1
                   | Some ms \<Rightarrow>
                       entry_cleanup_push e (ClearTimeout (EntryTimer e))
                         (s1\<lparr>timers := timers s1 @ [EntryTimer e]\<rparr>))
         in (Inr e, s2\<lparr>queue := queue s2 @ [e]\<rparr>)))"

definition acquire :: "sid option \<Rightarrow> jsnum option \<Rightarrow> state \<Rightarrow> (error + eid) \<times> state" where
  "acquire signal queueTimeoutMs s =
     (if is_aborted signal s then (Inl AbortError, s)
      else if js_lt (Fin (of_int (active s))) (limit s) then
        (let r = next_run s
         in (Inr r, s\<lparr>active := active s + 1,
                       runs := (runs s)(r \<mapsto> Running),
                       next_run := Suc r\<rparr>))
      else if js_le (maxQueue s) (Fin (of_nat (length (queue s)))) then
        (Inl QueueOverflowError, s)
      else waitForTurn signal queueTimeoutMs s)"

section \<open>The public operations and the events\<close>

text \<open>The operator \<^verbatim>\<open>??\<close> on an optional value.\<close>

definition nullish :: "'a option \<Rightarrow> 'a option \<Rightarrow> 'a option" where
  "nullish a b = (case a of Some x \<Rightarrow> Some x | None \<Rightarrow> b)"

text \<open>
  \<^verbatim>\<open>run\<close>, up to its first suspension: \<open>Inl\<close> is the error it rejects with at once,
  \<open>Inr r\<close> the number of the call, which is then admitted (\<open>Running\<close>) or queued
  (\<open>Waiting\<close>).
\<close>

definition run :: "RunOptions \<Rightarrow> state \<Rightarrow> (error + eid) \<times> state" where
  "run options s =
     (let signal = nullish (ro_signal options) (defaultSignal s);
          queueTimeoutMs = nullish (ro_queueTimeoutMs options) (defaultQueueTimeoutMs s)
      in case assertValidTimeoutMs queueTimeoutMs of
           Some err \<Rightarrow> (Inl err, s)
         | None \<Rightarrow>
             if is_aborted signal s then (Inl AbortError, s)
             else acquire signal queueTimeoutMs s)"

text \<open>
  The rest of \<^verbatim>\<open>run\<close> for an admitted call \<open>r\<close>: the task settles with \<open>res\<close>
  (\<open>Inr v\<close> when it returns \<open>v\<close>, \<open>Inl x\<close> when it throws \<open>x\<close>), the \<^verbatim>\<open>finally\<close>
  block runs, and the promise of \<^verbatim>\<open>run\<close> settles.
\<close>

definition run_finally :: "eid \<Rightarrow> error + nat \<Rightarrow> state \<Rightarrow> state" where
  "run_finally r res s =
     (case res of
        Inr v \<Rightarrow> (let s1 = release s in s1\<lparr>runs := (runs s1)(r \<mapsto> Finished (Inr v))\<rparr>)
      | Inl x \<Rightarrow> (let s1 = release s in s1\<lparr>runs := (runs s1)(r \<mapsto> Finished (Inl x))\<rparr>))"

definition idle_cleanup_push :: "wid \<Rightarrow> cleanup_fn \<Rightarrow> state \<Rightarrow> state" where
  "idle_cleanup_push w f s =
     s\<lparr>idles := (idles s)(w := (idles s w)\<lparr>i_cleanups := i_cleanups (idles s w) @ [f]\<rparr>)\<rparr>"

text \<open>
  \<^verbatim>\<open>onIdle\<close>, up to its first suspension: \<open>Inl\<close> is the error it rejects with at
  once, \<open>Inr None\<close> says it returned at once, \<open>Inr (Some w)\<close> that it waits as waiter
  \<open>w\<close>.
\<close>

definition onIdle :: "IdleOptions \<Rightarrow> state \<Rightarrow> (error + wid option) \<times> state" where
  "onIdle options s =
     (case assertValidTimeoutMs (io_timeoutMs options) of
        Some err \<Rightarrow> (Inl err, s)
      | None \<Rightarrow>
          if is_aborted (io_signal options) s then (Inl AbortError, s)
          else if active s = 0 \<and> queue s = [] then (Inr None, s)
          else
            (let w = next_idle s;
                 s0 = s\<lparr>idles := (idles s)(w := empty_idle), next_idle := Suc w\<rparr>;
                 s1 = idle_cleanup_push w (DeleteIdleWaiter w)
                        (s0\<lparr>idleWaiters := idleWaiters s0 @ [w]\<rparr>);
                 ra = addAbortHandler (io_signal options) (IdleAbort w) s1;
                 s2 = (case fst ra of
                         None \<Rightarrow> snd ra
                       | Some rmAbort \<Rightarrow> idle_cleanup_push w rmAbort (snd ra));
                 s3 = (case io_timeoutMs options of
                         None \<Rightarrow> s2
                       | Some ms \<Rightarrow>
                           idle_cleanup_push w (ClearTimeout (IdleTimer w))
                             (s2\<lparr>timers := timers s2 @ [IdleTimer w]\<rparr>))
             in (Inr (Some w), emitIdleIfNeeded s3)))"

text \<open>The callbacks that the limiter hands to a signal and to \<^verbatim>\<open>setTimeout\<close>.\<close>

fun call_listener :: "listener \<Rightarrow> state \<Rightarrow> state" where
  "call_listener (EntryAbort e) s = snd (defer_reject e AbortError (removeFromQueue e s))"
| "call_listener (IdleAbort w) s = finish w (Some AbortError) s"

fun call_timer :: "timer \<Rightarrow> state \<Rightarrow> state" where
  "call_timer (EntryTimer e) s = snd (defer_reject e QueueTimeoutError (removeFromQueue e s))"
| "call_timer (IdleTimer w) s = finish w (Some IdleTimeoutError) s"

text \<open>
  Dispatch of the \<^verbatim>\<open>abort\<close> event over the listeners registered when it starts: a
  listener taken off meanwhile is skipped, and a \<^verbatim>\<open>once\<close> listener is taken off
  before it is called.
\<close>

fun dispatch :: "sid \<Rightarrow> listener list \<Rightarrow> state \<Rightarrow> state" where
  "dispatch sg [] s = s"
| "dispatch sg (l # ls) s =
     (if l \<in> set (listeners s sg)
      then dispatch sg ls
             (call_listener l (s\<lparr>listeners := (listeners s)(sg := removeAll l (listeners s sg))\<rparr>))
      else dispatch sg ls s)"

definition abort :: "sid \<Rightarrow> state \<Rightarrow> state" where
  "abort sg s =
     (if aborted s sg then s
      else
        (let s1 = s\<lparr>aborted := (aborted s)(sg := True)\<rparr>
         in dispatch sg (listeners s1 sg) s1))"

text \<open>
  What can happen to a limiter, one atomic step each (JavaScript runs every callback to
  completion): a call of \<^verbatim>\<open>run\<close>, the task of an admitted call settling, a caller
  aborting a signal, a pending timer firing, a call of \<^verbatim>\<open>onIdle\<close>.
\<close>

datatype event =
    Run RunOptions
  | TaskDone eid "error + nat"
  | Abort sid
  | TimerFires timer
  | OnIdle IdleOptions

fun fire :: "event \<Rightarrow> state \<Rightarrow> state" where
  "fire (Run options) s = snd (run options s)"
| "fire (TaskDone r res) s = (if runs s r = Some Running then run_finally r res s else s)"
| "fire (Abort sg) s = abort sg s"
| "fire (TimerFires t) s =
     (if t \<in> set (timers s) then call_timer t (s\<lparr>timers := removeAll t (timers s)\<rparr>) else s)"
| "fire (OnIdle options) s = snd (onIdle options s)"

inductive reachable :: "state \<Rightarrow> bool" where
  init: "Limiter lmt options = Inr s \<Longrightarrow> reachable s"
| step: "reachable s \<Longrightarrow> reachable (fire ev s)"

section \<open>Example limiters\<close>

definition no_options :: LimiterOptions where
  "no_options = \<lparr>lo_maxQueue = None, lo_queueTimeoutMs = None, lo_signal = None\<rparr>"

definition plain :: RunOptions where
  "plain = \<lparr>ro_signal = None, ro_queueTimeoutMs = None\<rparr>"

text \<open>\<open>limiter_of n\<close> is \<^verbatim>\<open>new Limiter(n)\<close> for a valid \<open>n\<close>.\<close>

definition limiter_of :: "rat \<Rightarrow> state" where
  "limiter_of n = (case Limiter (Fin n) no_options of Inr s \<Rightarrow> s)"

text \<open>\<open>limiter_with n options\<close> is \<^verbatim>\<open>new Limiter(n, options)\<close> for valid arguments.\<close>

definition limiter_with :: "rat \<Rightarrow> LimiterOptions \<Rightarrow> state" where
  "limiter_with n options = (case Limiter (Fin n) options of Inr s \<Rightarrow> s)"

definition no_queue :: LimiterOptions where
  "no_queue = \<lparr>lo_maxQueue = Some (Fin 0), lo_queueTimeoutMs = None, lo_signal = None\<rparr>"

section \<open>What each operation leaves unchanged\<close>

declare release.simps [simp del]

lemma call_cleanup_frame [simp]:
  "active (call_cleanup f s) = active s"
  "limit (call_cleanup f s) = limit s"
  "maxQueue (call_cleanup f s) = maxQueue s"
  "defaultQueueTimeoutMs (call_cleanup f s) = defaultQueueTimeoutMs s"
  "defaultSignal (call_cleanup f s) = defaultSignal s"
  "entries (call_cleanup f s) = entries s"
  "runs (call_cleanup f s) = runs s"
  "next_run (call_cleanup f s) = next_run s"
  "idles (call_cleanup f s) = idles s"
  "next_idle (call_cleanup f s) = next_idle s"
  "aborted (call_cleanup f s) = aborted s"
  "invoked (call_cleanup f s) = invoked s @ [f]"
  by (simp_all add: call_cleanup_def Let_def split: cleanup_fn.split)

lemma fold_call_cleanup_frame [simp]:
  "active (fold call_cleanup fns s) = active s"
  "limit (fold call_cleanup fns s) = limit s"
  "maxQueue (fold call_cleanup fns s) = maxQueue s"
  "defaultQueueTimeoutMs (fold call_cleanup fns s) = defaultQueueTimeoutMs s"
  "defaultSignal (fold call_cleanup fns s) = defaultSignal s"
  "entries (fold call_cleanup fns s) = entries s"
  "runs (fold call_cleanup fns s) = runs s"
  "next_run (fold call_cleanup fns s) = next_run s"
  "idles (fold call_cleanup fns s) = idles s"
  "next_idle (fold call_cleanup fns s) = next_idle s"
  "aborted (fold call_cleanup fns s) = aborted s"
  "invoked (fold call_cleanup fns s) = invoked s @ fns"
  by (induction fns arbitrary: s; simp)+

lemma entry_remove_frame [simp]:
  "active (entry_remove e s) = active s"
  "limit (entry_remove e s) = limit s"
  "maxQueue (entry_remove e s) = maxQueue s"
  "defaultQueueTimeoutMs (entry_remove e s) = defaultQueueTimeoutMs s"
  "defaultSignal (entry_remove e s) = defaultSignal s"
  "runs (entry_remove e s) = runs s"
  "next_run (entry_remove e s) = next_run s"
  "idles (entry_remove e s) = idles s"
  "next_idle (entry_remove e s) = next_idle s"
  "aborted (entry_remove e s) = aborted s"
  by (simp_all add: entry_remove_def Let_def)

lemma entries_entry_remove:
  "entries (entry_remove e s) =
     (if removed (entries s e) then entries s
      else (entries s)(e := (entries s e)\<lparr>removed := True, cleanup := []\<rparr>))"
  by (simp add: entry_remove_def Let_def)

lemma invoked_entry_remove:
  "invoked (entry_remove e s) =
     (if removed (entries s e) then invoked s else invoked s @ cleanup (entries s e))"
  by (simp add: entry_remove_def Let_def)

lemma finish_frame [simp]:
  "active (finish w err s) = active s"
  "queue (finish w err s) = queue s"
  "limit (finish w err s) = limit s"
  "maxQueue (finish w err s) = maxQueue s"
  "defaultQueueTimeoutMs (finish w err s) = defaultQueueTimeoutMs s"
  "defaultSignal (finish w err s) = defaultSignal s"
  "entries (finish w err s) = entries s"
  "runs (finish w err s) = runs s"
  "next_run (finish w err s) = next_run s"
  "next_idle (finish w err s) = next_idle s"
  "aborted (finish w err s) = aborted s"
  by (simp_all add: finish_def Let_def queue_fold_call_cleanup)

lemma fold_finish_frame [simp]:
  "active (fold (\<lambda>w. finish w err) ws s) = active s"
  "queue (fold (\<lambda>w. finish w err) ws s) = queue s"
  "limit (fold (\<lambda>w. finish w err) ws s) = limit s"
  "maxQueue (fold (\<lambda>w. finish w err) ws s) = maxQueue s"
  "defaultQueueTimeoutMs (fold (\<lambda>w. finish w err) ws s) = defaultQueueTimeoutMs s"
  "defaultSignal (fold (\<lambda>w. finish w err) ws s) = defaultSignal s"
  "entries (fold (\<lambda>w. finish w err) ws s) = entries s"
  "runs (fold (\<lambda>w. finish w err) ws s) = runs s"
  "next_run (fold (\<lambda>w. finish w err) ws s) = next_run s"
  "next_idle (fold (\<lambda>w. finish w err) ws s) = next_idle s"
  "aborted (fold (\<lambda>w. finish w err) ws s) = aborted s"
  by (induction ws arbitrary: s; simp)+

lemma emitIdleIfNeeded_frame [simp]:
  "active (emitIdleIfNeeded s) = active s"
  "queue (emitIdleIfNeeded s) = queue s"
  "limit (emitIdleIfNeeded s) = limit s"
  "maxQueue (emitIdleIfNeeded s) = maxQueue s"
  "defaultQueueTimeoutMs (emitIdleIfNeeded s) = defaultQueueTimeoutMs s"
  "defaultSignal (emitIdleIfNeeded s) = defaultSignal s"
  "entries (emitIdleIfNeeded s) = entries s"
  "runs (emitIdleIfNeeded s) = runs s"
  "next_run (emitIdleIfNeeded s) = next_run s"
  "next_idle (emitIdleIfNeeded s) = next_idle s"
  "aborted (emitIdleIfNeeded s) = aborted s"
  by (simp_all add: emitIdleIfNeeded_def)

lemma removeFromQueue_frame [simp]:
  "active (removeFromQueue e s) = active s"
  "limit (removeFromQueue e s) = limit s"
  "maxQueue (removeFromQueue e s) = maxQueue s"
  "defaultQueueTimeoutMs (removeFromQueue e s) = defaultQueueTimeoutMs s"
  "defaultSignal (removeFromQueue e s) = defaultSignal s"
  "runs (removeFromQueue e s) = runs s"
  "next_run (removeFromQueue e s) = next_run s"
  "next_idle (removeFromQueue e s) = next_idle s"
  "aborted (removeFromQueue e s) = aborted s"
  by (simp_all add: removeFromQueue_def Let_def)

lemma queue_removeFromQueue:
  "queue (removeFromQueue e s) =
     (if removed (entries s e) then queue s else remove1 e (queue s))"
  by (simp add: removeFromQueue_def Let_def queue_entry_remove)

lemma entries_removeFromQueue:
  "entries (removeFromQueue e s) =
     (if removed (entries s e) then entries s
      else (entries s)(e := (entries s e)\<lparr>removed := True, cleanup := []\<rparr>))"
  by (simp add: removeFromQueue_def Let_def entries_entry_remove)

lemma defer_resolve_frame [simp]:
  "active (snd (defer_resolve e s)) = active s"
  "limit (snd (defer_resolve e s)) = limit s"
  "maxQueue (snd (defer_resolve e s)) = maxQueue s"
  "defaultQueueTimeoutMs (snd (defer_resolve e s)) = defaultQueueTimeoutMs s"
  "defaultSignal (snd (defer_resolve e s)) = defaultSignal s"
  "idleWaiters (snd (defer_resolve e s)) = idleWaiters s"
  "next_run (snd (defer_resolve e s)) = next_run s"
  "idles (snd (defer_resolve e s)) = idles s"
  "next_idle (snd (defer_resolve e s)) = next_idle s"
  "aborted (snd (defer_resolve e s)) = aborted s"
  "listeners (snd (defer_resolve e s)) = listeners s"
  "timers (snd (defer_resolve e s)) = timers s"
  "invoked (snd (defer_resolve e s)) = invoked s"
  by (simp_all add: defer_resolve_def)

lemma defer_reject_frame [simp]:
  "active (snd (defer_reject e err s)) = active s"
  "queue (snd (defer_reject e err s)) = queue s"
  "limit (snd (defer_reject e err s)) = limit s"
  "maxQueue (snd (defer_reject e err s)) = maxQueue s"
  "defaultQueueTimeoutMs (snd (defer_reject e err s)) = defaultQueueTimeoutMs s"
  "defaultSignal (snd (defer_reject e err s)) = defaultSignal s"
  "idleWaiters (snd (defer_reject e err s)) = idleWaiters s"
  "next_run (snd (defer_reject e err s)) = next_run s"
  "idles (snd (defer_reject e err s)) = idles s"
  "next_idle (snd (defer_reject e err s)) = next_idle s"
  "aborted (snd (defer_reject e err s)) = aborted s"
  "listeners (snd (defer_reject e err s)) = listeners s"
  "timers (snd (defer_reject e err s)) = timers s"
  "invoked (snd (defer_reject e err s)) = invoked s"
  by (simp_all add: defer_reject_def)


section \<open>The first live waiter gets the slot\<close>

text \<open>
  A live waiter is an entry that is neither marked removed nor settled. \<open>handed_off s s'\<close>
  says what \<^verbatim>\<open>release\<close> has done when it takes \<open>s\<close> to \<open>s'\<close>.
\<close>

definition live :: "state \<Rightarrow> eid \<Rightarrow> bool" where
  "live s e = (\<not> removed (entries s e) \<and> \<not> settled (entries s e))"

definition handed_off :: "state \<Rightarrow> state \<Rightarrow> bool" where
  "handed_off s s' =
     (case find (live s) (queue s) of
        Some e \<Rightarrow>
          active s' = active s \<and>
          queue s' = tl (dropWhile (\<lambda>x. \<not> live s x) (queue s)) \<and>
          runs s' = (runs s)(e \<mapsto> Running) \<and>
          (\<forall>x. settled (entries s' x) = (x = e \<or> settled (entries s x)))
      | None \<Rightarrow>
          active s' = active s - 1 \<and>
          queue s' = [] \<and>
          runs s' = runs s \<and>
          (\<forall>x. settled (entries s' x) = settled (entries s x)) \<and>
          (\<exists>s1. active s1 = active s - 1 \<and> queue s1 = [] \<and> s' = emitIdleIfNeeded s1))"

lemma shiftNext_loop_cases:
  "(shiftNext_loop es q = (None, []) \<and> (\<forall>x\<in>set q. removed (es x))) \<or>
   (\<exists>pre n rest. q = pre @ n # rest \<and> (\<forall>x\<in>set pre. removed (es x)) \<and>
      \<not> removed (es n) \<and> shiftNext_loop es q = (Some n, rest))"
proof (induction q)
  case Nil
  then show ?case by simp
next
  case (Cons a q)
  show ?case
  proof (cases "removed (es a)")
    case True
    from Cons.IH show ?thesis
    proof
      assume "shiftNext_loop es q = (None, []) \<and> (\<forall>x\<in>set q. removed (es x))"
      with True show ?thesis by simp
    next
      assume "\<exists>pre n rest. q = pre @ n # rest \<and> (\<forall>x\<in>set pre. removed (es x)) \<and>
        \<not> removed (es n) \<and> shiftNext_loop es q = (Some n, rest)"
      then obtain pre n rest where h: "q = pre @ n # rest" "\<forall>x\<in>set pre. removed (es x)"
        "\<not> removed (es n)" "shiftNext_loop es q = (Some n, rest)" by blast
      have "a # q = (a # pre) @ n # rest" using h(1) by simp
      moreover have "\<forall>x\<in>set (a # pre). removed (es x)" using True h(2) by simp
      moreover have "shiftNext_loop es (a # q) = (Some n, rest)" using True h(4) by simp
      ultimately show ?thesis using h(3) by blast
    qed
  next
    case False
    then have "a # q = [] @ a # q \<and> (\<forall>x\<in>set []. removed (es x)) \<and> \<not> removed (es a) \<and>
      shiftNext_loop es (a # q) = (Some a, q)" by simp
    then show ?thesis by blast
  qed
qed

lemma find_skip_prefix:
  "\<forall>x\<in>set pre. \<not> P x \<Longrightarrow> find P (pre @ ys) = find P ys"
  by (induction pre) simp_all

lemma dropWhile_skip_prefix:
  "\<forall>x\<in>set pre. P x \<Longrightarrow> dropWhile P (pre @ ys) = dropWhile P ys"
  by (induction pre) simp_all

lemma release_handed_off: "handed_off s (release s)"
proof (induction s rule: release.induct)
  case (1 s)
  let ?es = "entries s"
  from shiftNext_loop_cases [of ?es "queue s"] show ?case
  proof
    assume h: "shiftNext_loop ?es (queue s) = (None, []) \<and> (\<forall>x\<in>set (queue s). removed (?es x))"
    then have nolive: "find (live s) (queue s) = None"
      by (auto simp: find_None_iff live_def)
    have rel: "release s = emitIdleIfNeeded (s\<lparr>queue := [], active := active s - 1\<rparr>)"
      using h by (simp add: release.simps [of s] shiftNext_def Let_def)
    show ?thesis
      unfolding handed_off_def nolive rel
      by (auto intro!: exI [of _ "s\<lparr>queue := [], active := active s - 1\<rparr>"])
  next
    assume "\<exists>pre n rest. queue s = pre @ n # rest \<and> (\<forall>x\<in>set pre. removed (?es x)) \<and>
      \<not> removed (?es n) \<and> shiftNext_loop ?es (queue s) = (Some n, rest)"
    then obtain pre n rest where q: "queue s = pre @ n # rest"
      and pre: "\<forall>x\<in>set pre. removed (?es x)" and n: "\<not> removed (?es n)"
      and sl: "shiftNext_loop ?es (queue s) = (Some n, rest)" by blast
    define s1 where "s1 = s\<lparr>queue := rest\<rparr>"
    have sn: "shiftNext s = (Some n, s1)"
      using sl by (simp add: shiftNext_def Let_def s1_def)
    have prelive: "\<forall>x\<in>set pre. \<not> live s x" using pre by (simp add: live_def)
    show ?thesis
    proof (cases "settled (?es n)")
      case False
      then have ln: "live s n" using n by (simp add: live_def)
      have f: "find (live s) (queue s) = Some n"
        using prelive ln by (simp add: q find_skip_prefix)
      have d: "dropWhile (\<lambda>x. \<not> live s x) (queue s) = n # rest"
        using prelive ln by (simp add: q dropWhile_skip_prefix)
      have r: "release s = snd (defer_resolve n (entry_remove n s1))"
        using False n
        by (simp add: release.simps [of s] sn Let_def defer_resolve_def entries_entry_remove s1_def)
      show ?thesis
        unfolding handed_off_def f d r
        using False n
        by (auto simp: defer_resolve_def entries_entry_remove s1_def queue_entry_remove)
    next
      case True
      define s3 where "s3 = entry_remove n s1"
      have dr: "defer_resolve n (entry_remove n s1) = (False, s3)"
        using True n by (simp add: defer_resolve_def entries_entry_remove s1_def s3_def)
      have r: "release s = release s3"
        by (simp add: release.simps [of s] sn Let_def dr)
      have ih: "handed_off s3 (release s3)"
        using "1.IH" [of "Some n" s1 n "(False, s3)"] sn dr by simp
      have es3: "entries s3 = (?es)(n := (?es n)\<lparr>removed := True, cleanup := []\<rparr>)"
        using n by (simp add: s3_def entries_entry_remove s1_def)
      have live3: "live s3 = live s"
        using True by (auto simp: live_def es3 fun_eq_iff)
      have q3: "queue s3 = rest" by (simp add: s3_def queue_entry_remove s1_def)
      have nl: "\<not> live s n" using True by (simp add: live_def)
      have f: "find (live s) (queue s) = find (live s) rest"
        using prelive nl by (simp add: q find_skip_prefix)
      have d: "dropWhile (\<lambda>x. \<not> live s x) (queue s) = dropWhile (\<lambda>x. \<not> live s x) rest"
        using prelive nl by (simp add: q dropWhile_skip_prefix)
      have a3: "active s3 = active s" "runs s3 = runs s"
        by (simp_all add: s3_def s1_def)
      have st3: "\<And>x. settled (entries s3 x) = settled (?es x)"
        by (simp add: es3)
      show ?thesis
        using ih unfolding handed_off_def r live3 q3 f d a3 st3 .
    qed
  qed
qed


lemma call_cleanup_collections:
  "listeners (call_cleanup f s) sg = filter (\<lambda>l. f \<noteq> RemoveAbortListener sg l) (listeners s sg)"
  "timers (call_cleanup f s) = filter (\<lambda>t. f \<noteq> ClearTimeout t) (timers s)"
  "idleWaiters (call_cleanup f s) = filter (\<lambda>w. f \<noteq> DeleteIdleWaiter w) (idleWaiters s)"
  by (auto simp: call_cleanup_def Let_def removeAll_filter_not_eq split: cleanup_fn.split
      intro!: filter_cong)

lemma fold_call_cleanup_collections:
  "listeners (fold call_cleanup fns s) sg =
     filter (\<lambda>l. RemoveAbortListener sg l \<notin> set fns) (listeners s sg)"
  "timers (fold call_cleanup fns s) = filter (\<lambda>t. ClearTimeout t \<notin> set fns) (timers s)"
  "idleWaiters (fold call_cleanup fns s) =
     filter (\<lambda>w. DeleteIdleWaiter w \<notin> set fns) (idleWaiters s)"
proof (induction fns arbitrary: s)
  case Nil
  {
    case 1 show ?case by simp
  next
    case 2 show ?case by simp
  next
    case 3 show ?case by simp
  }
next
  case (Cons f fns)
  {
    case 1
    show ?case
      by (simp add: Cons.IH(1) call_cleanup_collections(1)) (rule filter_cong, auto)
  next
    case 2
    show ?case
      by (simp add: Cons.IH(2) call_cleanup_collections(2)) (rule filter_cong, auto)
  next
    case 3
    show ?case
      by (simp add: Cons.IH(3) call_cleanup_collections(3)) (rule filter_cong, auto)
  }
qed


section \<open>Invariants of the reachable states\<close>

text \<open>
  \<open>active\<close> counts the admitted calls and stays below \<open>limit + 1\<close>; the queue holds
  exactly the waiting calls, in order of arrival, none of them marked removed; an entry is
  marked removed exactly when it is settled; a pending callback of an entry (its abort
  listener, its timer) belongs to an entry in the queue, whose cleanup list holds the
  closure that takes the callback off.
\<close>

definition running :: "state \<Rightarrow> eid set" where
  "running s = {r. runs s r = Some Running}"

definition inv_limit :: "state \<Rightarrow> bool" where
  "inv_limit s \<longleftrightarrow> (\<exists>L. limit s = Fin L \<and> 0 < L \<and> of_int (active s) < L + 1)"

definition inv_count :: "state \<Rightarrow> bool" where
  "inv_count s \<longleftrightarrow> active s = int (card (running s))"

definition inv_queue :: "state \<Rightarrow> bool" where
  "inv_queue s \<longleftrightarrow>
     (\<forall>e\<in>set (queue s). \<not> removed (entries s e) \<and> runs s e = Some Waiting)"

definition inv_sorted :: "state \<Rightarrow> bool" where
  "inv_sorted s \<longleftrightarrow> sorted_wrt (<) (queue s)"

definition inv_waiting :: "state \<Rightarrow> bool" where
  "inv_waiting s \<longleftrightarrow> (\<forall>e. runs s e = Some Waiting \<longrightarrow> e \<in> set (queue s))"

definition inv_alloc :: "state \<Rightarrow> bool" where
  "inv_alloc s \<longleftrightarrow> (\<forall>e. runs s e \<noteq> None \<longrightarrow> e < next_run s)"

definition inv_flags :: "state \<Rightarrow> bool" where
  "inv_flags s \<longleftrightarrow> (\<forall>e. removed (entries s e) = settled (entries s e))"

definition inv_listeners :: "state \<Rightarrow> bool" where
  "inv_listeners s \<longleftrightarrow>
     (\<forall>sg e. EntryAbort e \<in> set (listeners s sg) \<longrightarrow>
        e \<in> set (queue s) \<and>
        RemoveAbortListener sg (EntryAbort e) \<in> set (cleanup (entries s e)))"

definition inv_timers :: "state \<Rightarrow> bool" where
  "inv_timers s \<longleftrightarrow>
     (\<forall>e. EntryTimer e \<in> set (timers s) \<longrightarrow>
        e \<in> set (queue s) \<and> ClearTimeout (EntryTimer e) \<in> set (cleanup (entries s e)))"

definition struct_inv :: "state \<Rightarrow> bool" where
  "struct_inv s \<longleftrightarrow>
     inv_queue s \<and> inv_sorted s \<and> inv_waiting s \<and> inv_alloc s \<and> inv_flags s \<and>
     inv_listeners s \<and> inv_timers s"

definition limiter_inv :: "state \<Rightarrow> bool" where
  "limiter_inv s \<longleftrightarrow> inv_limit s \<and> inv_count s \<and> struct_inv s"

lemmas inv_defs =
  inv_limit_def inv_count_def inv_queue_def inv_sorted_def inv_waiting_def
  inv_alloc_def inv_flags_def inv_listeners_def inv_timers_def

text \<open>\<open>s'\<close> has the queue, the entries and the calls of \<open>s\<close>, and no callback of a queue
  entry that \<open>s\<close> has not.\<close>

definition struct_shrinks :: "state \<Rightarrow> state \<Rightarrow> bool" where
  "struct_shrinks s s' \<longleftrightarrow>
     queue s' = queue s \<and> entries s' = entries s \<and> runs s' = runs s \<and>
     next_run s' = next_run s \<and>
     (\<forall>sg e. EntryAbort e \<in> set (listeners s' sg) \<longrightarrow> EntryAbort e \<in> set (listeners s sg)) \<and>
     (\<forall>e. EntryTimer e \<in> set (timers s') \<longrightarrow> EntryTimer e \<in> set (timers s))"

definition shrinks :: "state \<Rightarrow> state \<Rightarrow> bool" where
  "shrinks s s' \<longleftrightarrow> active s' = active s \<and> limit s' = limit s \<and> struct_shrinks s s'"

lemma shrinks_refl: "shrinks s s"
  by (simp add: shrinks_def struct_shrinks_def)

lemma struct_shrinks_trans:
  assumes "struct_shrinks s s'" and "struct_shrinks s' s''"
  shows "struct_shrinks s s''"
proof -
  have "\<forall>sg e. EntryAbort e \<in> set (listeners s'' sg) \<longrightarrow> EntryAbort e \<in> set (listeners s sg)"
    using assms unfolding struct_shrinks_def by blast
  moreover have "\<forall>e. EntryTimer e \<in> set (timers s'') \<longrightarrow> EntryTimer e \<in> set (timers s)"
    using assms unfolding struct_shrinks_def by blast
  ultimately show ?thesis
    using assms unfolding struct_shrinks_def by simp
qed

lemma shrinks_trans:
  assumes "shrinks s s'" and "shrinks s' s''"
  shows "shrinks s s''"
  using assms struct_shrinks_trans [of s s' s''] unfolding shrinks_def by simp

lemma struct_inv_shrinks:
  assumes "struct_inv s" and "struct_shrinks s s'"
  shows "struct_inv s'"
proof -
  from assms(2) have eq: "queue s' = queue s"
    "entries s' = entries s" "runs s' = runs s" "next_run s' = next_run s"
    and ls: "\<And>sg e. EntryAbort e \<in> set (listeners s' sg) \<Longrightarrow> EntryAbort e \<in> set (listeners s sg)"
    and ts: "\<And>e. EntryTimer e \<in> set (timers s') \<Longrightarrow> EntryTimer e \<in> set (timers s)"
    unfolding struct_shrinks_def by auto
  from assms(1) have i: "inv_queue s" "inv_sorted s"
    "inv_waiting s" "inv_alloc s" "inv_flags s" "inv_listeners s" "inv_timers s"
    unfolding struct_inv_def by simp_all
  have "inv_queue s'" using i(1) unfolding inv_queue_def eq .
  moreover have "inv_sorted s'" using i(2) unfolding inv_sorted_def eq .
  moreover have "inv_waiting s'" using i(3) unfolding inv_waiting_def eq .
  moreover have "inv_alloc s'" using i(4) unfolding inv_alloc_def eq .
  moreover have "inv_flags s'" using i(5) unfolding inv_flags_def eq .
  moreover have "inv_listeners s'"
    using i(6) ls unfolding inv_listeners_def eq by blast
  moreover have "inv_timers s'"
    using i(7) ts unfolding inv_timers_def eq by blast
  ultimately show ?thesis unfolding struct_inv_def by simp
qed

lemma limiter_inv_shrinks:
  assumes "limiter_inv s" and "shrinks s s'"
  shows "limiter_inv s'"
proof -
  from assms(2) have eq: "active s' = active s" "limit s' = limit s" "runs s' = runs s"
    and ss: "struct_shrinks s s'"
    unfolding shrinks_def struct_shrinks_def by auto
  from assms(1) have i: "inv_limit s" "inv_count s" "struct_inv s"
    unfolding limiter_inv_def by simp_all
  have "inv_limit s'" using i(1) unfolding inv_limit_def eq .
  moreover have "inv_count s'" using i(2) unfolding inv_count_def running_def eq .
  ultimately show ?thesis
    using struct_inv_shrinks [OF i(3) ss] unfolding limiter_inv_def by simp
qed

lemma finish_subsets:
  "set (listeners (finish w err s) sg) \<subseteq> set (listeners s sg) \<and>
   set (timers (finish w err s)) \<subseteq> set (timers s)"
  by (auto simp: finish_def Let_def fold_call_cleanup_collections)

lemma fold_finish_subsets:
  "set (listeners (fold (\<lambda>w. finish w err) ws s) sg) \<subseteq> set (listeners s sg) \<and>
   set (timers (fold (\<lambda>w. finish w err) ws s)) \<subseteq> set (timers s)"
proof (induction ws arbitrary: s)
  case Nil
  show ?case by simp
next
  case (Cons w ws)
  show ?case
    using Cons.IH [of "finish w err s"] finish_subsets [of w err s sg] by auto
qed

lemma emitIdleIfNeeded_subsets:
  "set (listeners (emitIdleIfNeeded s) sg) \<subseteq> set (listeners s sg) \<and>
   set (timers (emitIdleIfNeeded s)) \<subseteq> set (timers s)"
  using fold_finish_subsets [of None "idleWaiters s" s sg]
  by (simp add: emitIdleIfNeeded_def)

lemma shrinks_finish: "shrinks s (finish w err s)"
  unfolding shrinks_def struct_shrinks_def
  by (simp add: finish_def Let_def fold_call_cleanup_collections queue_fold_call_cleanup)

lemma shrinks_fold_finish: "shrinks s (fold (\<lambda>w. finish w err) ws s)"
proof (induction ws arbitrary: s)
  case Nil
  show ?case by (simp add: shrinks_refl)
next
  case (Cons w ws)
  show ?case
    using shrinks_trans [OF shrinks_finish [of s w err] Cons.IH [of "finish w err s"]]
    by simp
qed

lemma shrinks_emitIdleIfNeeded: "shrinks s (emitIdleIfNeeded s)"
  by (simp add: emitIdleIfNeeded_def shrinks_refl shrinks_fold_finish)

lemma limiter_inv_init:
  assumes "Limiter lmt options = Inr s"
  shows "limiter_inv s"
proof -
  from assms obtain L where L: "lmt = Fin L" "0 < L"
    by (cases lmt) (auto simp: Limiter_def assertValidLimit_def split: option.splits if_splits)
  from assms have s: "active s = 0" "queue s = []" "limit s = lmt" "runs s = (\<lambda>_. None)"
    "entries s = (\<lambda>_. empty_entry)" "listeners s = (\<lambda>_. [])" "timers s = []"
    by (auto simp: Limiter_def Let_def split: option.splits)
  show ?thesis
    unfolding limiter_inv_def struct_inv_def inv_defs running_def
    using L by (simp add: s empty_entry_def)
qed

lemma running_finite:
  assumes "inv_alloc s"
  shows "finite (running s)"
proof -
  have "running s \<subseteq> {..<next_run s}"
    using assms by (auto simp: inv_alloc_def running_def)
  then show ?thesis by (rule finite_subset) simp
qed

text \<open>An entry leaves the queue for good: it is marked and settled, its closures are
  called, and its call moves on to phase \<open>p\<close>.\<close>

definition leaves :: "eid \<Rightarrow> phase \<Rightarrow> state \<Rightarrow> state \<Rightarrow> bool" where
  "leaves e p s s' \<longleftrightarrow>
     limit s' = limit s \<and> next_run s' = next_run s \<and>
     queue s' = remove1 e (queue s) \<and>
     entries s' = (entries s)(e := (entries s e)\<lparr>removed := True, cleanup := [], settled := True\<rparr>) \<and>
     runs s' = (runs s)(e \<mapsto> p) \<and>
     (\<forall>sg l. l \<in> set (listeners s' sg) \<longrightarrow>
        l \<in> set (listeners s sg) \<and> RemoveAbortListener sg l \<notin> set (cleanup (entries s e))) \<and>
     (\<forall>t. t \<in> set (timers s') \<longrightarrow>
        t \<in> set (timers s) \<and> ClearTimeout t \<notin> set (cleanup (entries s e)))"

lemma leaves_preserves:
  assumes inv: "struct_inv s" and e: "e \<in> set (queue s)" and p: "p \<noteq> Waiting"
    and lv: "leaves e p s s'"
  shows "struct_inv s'"
  unfolding struct_inv_def
proof (intro conjI)
  from inv have i: "inv_queue s" "inv_sorted s" "inv_waiting s" "inv_alloc s" "inv_flags s"
    "inv_listeners s" "inv_timers s"
    unfolding struct_inv_def by simp_all
  from lv have eq: "next_run s' = next_run s" "queue s' = remove1 e (queue s)"
    "entries s' = (entries s)(e := (entries s e)\<lparr>removed := True, cleanup := [], settled := True\<rparr>)"
    "runs s' = (runs s)(e \<mapsto> p)"
    unfolding leaves_def by simp_all
  from lv have ls: "\<And>sg l. l \<in> set (listeners s' sg) \<Longrightarrow>
      l \<in> set (listeners s sg) \<and> RemoveAbortListener sg l \<notin> set (cleanup (entries s e))"
    and ts: "\<And>t. t \<in> set (timers s') \<Longrightarrow>
      t \<in> set (timers s) \<and> ClearTimeout t \<notin> set (cleanup (entries s e))"
    unfolding leaves_def by blast+
  have dist: "distinct (queue s)"
    using i(2) unfolding inv_sorted_def by (simp add: strict_sorted_iff)
  have mem: "\<And>x. x \<in> set (remove1 e (queue s)) \<longleftrightarrow> x \<in> set (queue s) \<and> x \<noteq> e"
    using dist by simp
  show "inv_queue s'"
    using i(1) unfolding inv_queue_def eq by (simp add: mem)
  show "inv_sorted s'"
    using i(2) dist unfolding inv_sorted_def eq
    by (simp add: distinct_remove1_removeAll removeAll_filter_not_eq sorted_wrt_filter)
  show "inv_waiting s'"
    using i(3) p unfolding inv_waiting_def eq by (simp add: mem)
  have "runs s e \<noteq> None"
    using i(1) e unfolding inv_queue_def by auto
  then show "inv_alloc s'"
    using i(4) unfolding inv_alloc_def eq by auto
  show "inv_flags s'"
    using i(5) unfolding inv_flags_def eq by simp
  show "inv_listeners s'"
    unfolding inv_listeners_def
  proof (intro allI impI)
    fix sg x
    assume a: "EntryAbort x \<in> set (listeners s' sg)"
    from ls [OF a] have b: "EntryAbort x \<in> set (listeners s sg)"
      and c: "RemoveAbortListener sg (EntryAbort x) \<notin> set (cleanup (entries s e))" by simp_all
    from i(6) b have d: "x \<in> set (queue s)"
      "RemoveAbortListener sg (EntryAbort x) \<in> set (cleanup (entries s x))"
      unfolding inv_listeners_def by blast+
    from c d(2) have "x \<noteq> e" by auto
    then show "x \<in> set (queue s') \<and>
       RemoveAbortListener sg (EntryAbort x) \<in> set (cleanup (entries s' x))"
      using d by (simp add: eq mem)
  qed
  show "inv_timers s'"
    unfolding inv_timers_def
  proof (intro allI impI)
    fix x
    assume a: "EntryTimer x \<in> set (timers s')"
    from ts [OF a] have b: "EntryTimer x \<in> set (timers s)"
      and c: "ClearTimeout (EntryTimer x) \<notin> set (cleanup (entries s e))" by simp_all
    from i(7) b have d: "x \<in> set (queue s)"
      "ClearTimeout (EntryTimer x) \<in> set (cleanup (entries s x))"
      unfolding inv_timers_def by blast+
    from c d(2) have "x \<noteq> e" by auto
    then show "x \<in> set (queue s') \<and> ClearTimeout (EntryTimer x) \<in> set (cleanup (entries s' x))"
      using d by (simp add: eq mem)
  qed
qed


lemma cancel_leaves:
  assumes "\<not> removed (entries s e)" and "\<not> settled (entries s e)"
  shows "leaves e (Finished (Inl err)) s (snd (defer_reject e err (removeFromQueue e s)))"
proof -
  define mid where "mid = (entry_remove e s)\<lparr>queue := remove1 e (queue s)\<rparr>"
  define s1 where "s1 = emitIdleIfNeeded mid"
  have rq: "removeFromQueue e s = s1"
    using assms(1) by (simp add: removeFromQueue_def Let_def s1_def mid_def queue_entry_remove)
  have mid: "limit mid = limit s" "next_run mid = next_run s" "queue mid = remove1 e (queue s)"
    "entries mid = (entries s)(e := (entries s e)\<lparr>removed := True, cleanup := []\<rparr>)"
    "runs mid = runs s"
    "\<And>sg. listeners mid sg =
        filter (\<lambda>l. RemoveAbortListener sg l \<notin> set (cleanup (entries s e))) (listeners s sg)"
    "timers mid = filter (\<lambda>t. ClearTimeout t \<notin> set (cleanup (entries s e))) (timers s)"
    using assms(1)
    by (simp_all add: mid_def entries_entry_remove entry_remove_def [of e s] Let_def
        fold_call_cleanup_collections)
  have s1: "limit s1 = limit mid" "next_run s1 = next_run mid" "queue s1 = queue mid"
    "entries s1 = entries mid" "runs s1 = runs mid"
    by (simp_all add: s1_def)
  have ls: "\<And>sg l. l \<in> set (listeners s1 sg) \<Longrightarrow> l \<in> set (listeners mid sg)"
    and ts: "\<And>t. t \<in> set (timers s1) \<Longrightarrow> t \<in> set (timers mid)"
    using emitIdleIfNeeded_subsets [of mid] unfolding s1_def by blast+
  have ns: "\<not> settled (entries s1 e)"
    using assms(2) by (simp add: s1 mid)
  have fin: "snd (defer_reject e err (removeFromQueue e s)) =
      s1\<lparr>entries := (entries s1)(e := (entries s1 e)\<lparr>settled := True\<rparr>),
         runs := (runs s1)(e \<mapsto> Finished (Inl err))\<rparr>"
    using ns by (simp add: rq defer_reject_def)
  show ?thesis
    unfolding leaves_def fin
    using ls ts by (auto simp: s1 mid)
qed

lemma cancel_active:
  "active (snd (defer_reject e err (removeFromQueue e s))) = active s"
  by simp

lemma release_Cons:
  assumes "queue s = e # q" and "\<not> removed (entries s e)" and "\<not> settled (entries s e)"
  shows "release s = snd (defer_resolve e (entry_remove e (s\<lparr>queue := q\<rparr>)))"
  using assms
  by (simp add: release.simps [of s] shiftNext_def Let_def defer_resolve_def entries_entry_remove)

lemma release_Nil:
  assumes "queue s = []"
  shows "release s = emitIdleIfNeeded (s\<lparr>queue := [], active := active s - 1\<rparr>)"
  using assms by (simp add: release.simps [of s] shiftNext_def Let_def)

lemma handoff_leaves:
  assumes "queue s = e # q" and "\<not> removed (entries s e)" and "\<not> settled (entries s e)"
  shows "leaves e Running s (release s)"
proof -
  define mid where "mid = entry_remove e (s\<lparr>queue := q\<rparr>)"
  have mid: "limit mid = limit s" "next_run mid = next_run s" "queue mid = q"
    "entries mid = (entries s)(e := (entries s e)\<lparr>removed := True, cleanup := []\<rparr>)"
    "runs mid = runs s"
    "\<And>sg. listeners mid sg =
        filter (\<lambda>l. RemoveAbortListener sg l \<notin> set (cleanup (entries s e))) (listeners s sg)"
    "timers mid = filter (\<lambda>t. ClearTimeout t \<notin> set (cleanup (entries s e))) (timers s)"
    using assms(2)
    by (simp_all add: mid_def entries_entry_remove queue_entry_remove
        entry_remove_def [of e "s\<lparr>queue := q\<rparr>"] Let_def fold_call_cleanup_collections
        queue_fold_call_cleanup)
  have ns: "\<not> settled (entries mid e)"
    using assms(3) by (simp add: mid)
  have fin: "release s =
      mid\<lparr>entries := (entries mid)(e := (entries mid e)\<lparr>settled := True\<rparr>),
          runs := (runs mid)(e \<mapsto> Running)\<rparr>"
    using ns by (simp add: release_Cons [OF assms] mid_def [symmetric] defer_resolve_def)
  show ?thesis
    unfolding leaves_def fin
    by (auto simp: mid assms(1))
qed

lemma handoff_active:
  assumes "queue s = e # q" and "\<not> removed (entries s e)" and "\<not> settled (entries s e)"
  shows "active (release s) = active s"
  by (simp add: release_Cons [OF assms])

definition entry_closures :: "eid \<Rightarrow> sid option \<Rightarrow> jsnum option \<Rightarrow> cleanup_fn list" where
  "entry_closures e signal queueTimeoutMs =
     (case signal of None \<Rightarrow> [] | Some sg \<Rightarrow> [RemoveAbortListener sg (EntryAbort e)]) @
     (case queueTimeoutMs of None \<Rightarrow> [] | Some ms \<Rightarrow> [ClearTimeout (EntryTimer e)])"

lemma waitForTurn_fields:
  assumes "\<not> is_aborted signal s"
  shows "fst (waitForTurn signal qt s) = Inr (next_run s)"
    "active (snd (waitForTurn signal qt s)) = active s"
    "limit (snd (waitForTurn signal qt s)) = limit s"
    "maxQueue (snd (waitForTurn signal qt s)) = maxQueue s"
    "queue (snd (waitForTurn signal qt s)) = queue s @ [next_run s]"
    "next_run (snd (waitForTurn signal qt s)) = Suc (next_run s)"
    "runs (snd (waitForTurn signal qt s)) = (runs s)(next_run s \<mapsto> Waiting)"
    "entries (snd (waitForTurn signal qt s)) =
       (entries s)(next_run s :=
          \<lparr>settled = False, removed = False,
           cleanup = entry_closures (next_run s) signal qt,
           e_signal = signal, e_queueTimeoutMs = qt\<rparr>)"
    "listeners (snd (waitForTurn signal qt s)) =
       (case signal of
          None \<Rightarrow> listeners s
        | Some sg \<Rightarrow> (listeners s)(sg := listeners s sg @ [EntryAbort (next_run s)]))"
    "timers (snd (waitForTurn signal qt s)) =
       (case qt of None \<Rightarrow> timers s | Some ms \<Rightarrow> timers s @ [EntryTimer (next_run s)])"
    "idleWaiters (snd (waitForTurn signal qt s)) = idleWaiters s"
    "idles (snd (waitForTurn signal qt s)) = idles s"
    "next_idle (snd (waitForTurn signal qt s)) = next_idle s"
    "aborted (snd (waitForTurn signal qt s)) = aborted s"
    "invoked (snd (waitForTurn signal qt s)) = invoked s"
  using assms
  by (simp_all add: waitForTurn_def Let_def addAbortHandler_def entry_cleanup_push_def
      makeQueueEntry_def entry_closures_def split: option.splits)


lemma limiter_inv_cancel:
  assumes inv: "limiter_inv s" and e: "e \<in> set (queue s)"
  shows "limiter_inv (snd (defer_reject e err (removeFromQueue e s)))"
proof -
  let ?s' = "snd (defer_reject e err (removeFromQueue e s))"
  from inv have i: "inv_limit s" "inv_count s" "struct_inv s"
    unfolding limiter_inv_def by simp_all
  from i(3) e have ne: "\<not> removed (entries s e)" and w: "runs s e = Some Waiting"
    unfolding struct_inv_def inv_queue_def by auto
  from i(3) ne have ns: "\<not> settled (entries s e)"
    unfolding struct_inv_def inv_flags_def by simp
  have lv: "leaves e (Finished (Inl err)) s ?s'"
    using cancel_leaves [OF ne ns] .
  have st: "struct_inv ?s'"
    using leaves_preserves [OF i(3) e _ lv] by simp
  from lv have eq: "limit ?s' = limit s" "runs ?s' = (runs s)(e \<mapsto> Finished (Inl err))"
    unfolding leaves_def by simp_all
  have "inv_limit ?s'"
    using i(1) unfolding inv_limit_def eq by simp
  moreover have "running ?s' = running s"
    unfolding running_def eq using w by auto
  then have "inv_count ?s'"
    using i(2) unfolding inv_count_def by simp
  ultimately show ?thesis
    using st unfolding limiter_inv_def by simp
qed

lemma struct_inv_settle:
  assumes st: "struct_inv s" and r: "runs s r = Some Running"
  shows "struct_inv (s\<lparr>runs := (runs s)(r \<mapsto> Finished res)\<rparr>)"
proof -
  from st have i: "inv_queue s" "inv_sorted s" "inv_waiting s" "inv_alloc s" "inv_flags s"
    "inv_listeners s" "inv_timers s"
    unfolding struct_inv_def by simp_all
  have "inv_queue (s\<lparr>runs := (runs s)(r \<mapsto> Finished res)\<rparr>)"
    using i(1) r unfolding inv_queue_def by auto
  moreover have "inv_sorted (s\<lparr>runs := (runs s)(r \<mapsto> Finished res)\<rparr>)"
    using i(2) unfolding inv_sorted_def by simp
  moreover have "inv_waiting (s\<lparr>runs := (runs s)(r \<mapsto> Finished res)\<rparr>)"
    using i(3) unfolding inv_waiting_def by simp
  moreover have "inv_alloc (s\<lparr>runs := (runs s)(r \<mapsto> Finished res)\<rparr>)"
    using i(4) r unfolding inv_alloc_def by auto
  moreover have "inv_flags (s\<lparr>runs := (runs s)(r \<mapsto> Finished res)\<rparr>)"
    using i(5) unfolding inv_flags_def by simp
  moreover have "inv_listeners (s\<lparr>runs := (runs s)(r \<mapsto> Finished res)\<rparr>)"
    using i(6) unfolding inv_listeners_def by simp
  moreover have "inv_timers (s\<lparr>runs := (runs s)(r \<mapsto> Finished res)\<rparr>)"
    using i(7) unfolding inv_timers_def by simp
  ultimately show ?thesis unfolding struct_inv_def by simp
qed

lemma run_finally_eq:
  "run_finally r res s = (release s)\<lparr>runs := (runs (release s))(r \<mapsto> Finished res)\<rparr>"
  by (cases res) (simp_all add: run_finally_def Let_def)

lemma limiter_inv_run_finally:
  assumes inv: "limiter_inv s" and r: "runs s r = Some Running"
  shows "limiter_inv (run_finally r res s)"
proof -
  from inv have i: "inv_limit s" "inv_count s" "struct_inv s"
    unfolding limiter_inv_def by simp_all
  from i(3) have al: "inv_alloc s" and iq: "inv_queue s" and fl: "inv_flags s"
    unfolding struct_inv_def by simp_all
  have fin: "finite (running s)" using running_finite [OF al] .
  have rin: "r \<in> running s" using r by (simp add: running_def)
  from i(1) obtain L where L: "limit s = Fin L" "0 < L" "of_int (active s) < L + 1"
    unfolding inv_limit_def by blast
  show ?thesis
  proof (cases "queue s")
    case Nil
    define mid where "mid = s\<lparr>queue := [], active := active s - 1\<rparr>"
    define m2 where "m2 = mid\<lparr>runs := (runs mid)(r \<mapsto> Finished res)\<rparr>"
    have rel: "release s = emitIdleIfNeeded mid"
      using release_Nil [OF Nil] by (simp add: mid_def)
    have "struct_shrinks s mid"
      using Nil by (simp add: struct_shrinks_def mid_def)
    then have "struct_inv mid" using struct_inv_shrinks [OF i(3)] by simp
    moreover have "runs mid r = Some Running" using r by (simp add: mid_def)
    ultimately have st: "struct_inv m2"
      unfolding m2_def by (rule struct_inv_settle)
    have run2: "running m2 = running s - {r}"
      by (auto simp: running_def m2_def mid_def)
    have "card (running s) \<ge> 1"
      using fin rin by (metis One_nat_def Suc_leI card_gt_0_iff empty_iff)
    then have cnt: "inv_count m2"
      using i(2) fin rin unfolding inv_count_def run2
      by (simp add: m2_def mid_def)
    have lim: "inv_limit m2"
      unfolding inv_limit_def using L by (simp add: m2_def mid_def)
    have g2: "limiter_inv m2"
      using lim cnt st unfolding limiter_inv_def by simp
    have sub: "\<And>sg. set (listeners (emitIdleIfNeeded mid) sg) \<subseteq> set (listeners mid sg)"
      "set (timers (emitIdleIfNeeded mid)) \<subseteq> set (timers mid)"
      using emitIdleIfNeeded_subsets [of mid] by blast+
    have "shrinks m2 (run_finally r res s)"
      unfolding shrinks_def struct_shrinks_def run_finally_eq rel
      using sub by (auto simp: m2_def)
    then show ?thesis using limiter_inv_shrinks [OF g2] by simp
  next
    case (Cons e q)
    then have e: "e \<in> set (queue s)" by simp
    from iq e have ne: "\<not> removed (entries s e)" and w: "runs s e = Some Waiting"
      unfolding inv_queue_def by auto
    from fl ne have ns: "\<not> settled (entries s e)"
      unfolding inv_flags_def by simp
    have lv: "leaves e Running s (release s)"
      using handoff_leaves [OF Cons ne ns] .
    have act: "active (release s) = active s"
      using handoff_active [OF Cons ne ns] .
    have st1: "struct_inv (release s)"
      using leaves_preserves [OF i(3) e _ lv] by simp
    from lv have eq: "limit (release s) = limit s" "runs (release s) = (runs s)(e \<mapsto> Running)"
      unfolding leaves_def by simp_all
    have er: "e \<noteq> r" using w r by auto
    then have "runs (release s) r = Some Running" using r by (simp add: eq)
    then have st: "struct_inv (run_finally r res s)"
      unfolding run_finally_eq using struct_inv_settle [OF st1] by simp
    have enot: "e \<notin> running s" using w by (simp add: running_def)
    have run2: "running (run_finally r res s) = insert e (running s) - {r}"
      unfolding run_finally_eq using er by (auto simp: running_def eq)
    have "card (insert e (running s) - {r}) = card (running s)"
      using fin rin enot er by (simp add: card_Diff_singleton_if)
    then have cnt: "inv_count (run_finally r res s)"
      using i(2) unfolding inv_count_def run2 by (simp add: run_finally_eq act)
    have lim: "inv_limit (run_finally r res s)"
      unfolding inv_limit_def using L by (simp add: run_finally_eq act eq)
    show ?thesis using lim cnt st unfolding limiter_inv_def by simp
  qed
qed


lemma queue_below_next_run:
  assumes "struct_inv s" and "x \<in> set (queue s)"
  shows "x < next_run s"
  using assms unfolding struct_inv_def inv_queue_def inv_alloc_def by auto

lemma limiter_inv_admit:
  assumes inv: "limiter_inv s" and free: "js_lt (Fin (of_int (active s))) (limit s)"
  shows "limiter_inv (s\<lparr>active := active s + 1,
                     runs := (runs s)(next_run s \<mapsto> Running),
                     next_run := Suc (next_run s)\<rparr>)"
    (is "limiter_inv ?s'")
proof -
  from inv have i: "inv_limit s" "inv_count s" "struct_inv s"
    unfolding limiter_inv_def by simp_all
  from i(3) have j: "inv_queue s" "inv_sorted s" "inv_waiting s" "inv_alloc s" "inv_flags s"
    "inv_listeners s" "inv_timers s"
    unfolding struct_inv_def by simp_all
  have none: "runs s (next_run s) = None"
    using j(4) unfolding inv_alloc_def by auto
  from i(1) obtain L where L: "limit s = Fin L" "0 < L" unfolding inv_limit_def by blast
  from free have "of_int (active s) < L" by (simp add: L)
  then have "inv_limit ?s'" unfolding inv_limit_def using L by simp
  moreover have "running ?s' = insert (next_run s) (running s)"
    using none by (auto simp: running_def)
  moreover have "next_run s \<notin> running s" using none by (simp add: running_def)
  ultimately have a: "inv_limit ?s'" "inv_count ?s'"
    using i(2) running_finite [OF j(4)] unfolding inv_count_def by simp_all
  have "inv_queue ?s'" using j(1) none unfolding inv_queue_def by auto
  moreover have "inv_sorted ?s'" using j(2) unfolding inv_sorted_def by simp
  moreover have "inv_waiting ?s'" using j(3) unfolding inv_waiting_def by simp
  moreover have "inv_alloc ?s'" using j(4) unfolding inv_alloc_def by (auto simp: less_Suc_eq)
  moreover have "inv_flags ?s'" using j(5) unfolding inv_flags_def by simp
  moreover have "inv_listeners ?s'" using j(6) unfolding inv_listeners_def by simp
  moreover have "inv_timers ?s'" using j(7) unfolding inv_timers_def by simp
  ultimately show ?thesis using a unfolding limiter_inv_def struct_inv_def by simp
qed

lemma limiter_inv_waitForTurn:
  assumes inv: "limiter_inv s"
  shows "limiter_inv (snd (waitForTurn signal qt s))"
proof (cases "is_aborted signal s")
  case True
  then show ?thesis using inv by (simp add: waitForTurn_def)
next
  case False
  let ?e = "next_run s"
  let ?s' = "snd (waitForTurn signal qt s)"
  note f = waitForTurn_fields [OF False, of qt]
  from inv have i: "inv_limit s" "inv_count s" "struct_inv s"
    unfolding limiter_inv_def by simp_all
  from i(3) have j: "inv_queue s" "inv_sorted s" "inv_waiting s" "inv_alloc s" "inv_flags s"
    "inv_listeners s" "inv_timers s"
    unfolding struct_inv_def by simp_all
  have none: "runs s ?e = None"
    using j(4) unfolding inv_alloc_def by auto
  have below: "\<And>x. x \<in> set (queue s) \<Longrightarrow> x < ?e"
    using queue_below_next_run [OF i(3)] .
  have "inv_limit ?s'" using i(1) unfolding inv_limit_def f .
  moreover have "running ?s' = running s"
    unfolding running_def f using none by auto
  then have "inv_count ?s'" using i(2) unfolding inv_count_def f by simp
  moreover have "inv_queue ?s'"
    unfolding inv_queue_def f using j(1) below unfolding inv_queue_def by auto
  moreover have "inv_sorted ?s'"
    unfolding inv_sorted_def f using j(2) below unfolding inv_sorted_def
    by (simp add: sorted_wrt_append)
  moreover have "inv_waiting ?s'"
    unfolding inv_waiting_def f using j(3) unfolding inv_waiting_def by auto
  moreover have "inv_alloc ?s'"
    unfolding inv_alloc_def f using j(4) unfolding inv_alloc_def by (auto simp: less_Suc_eq)
  moreover have "inv_flags ?s'"
    unfolding inv_flags_def f using j(5) unfolding inv_flags_def by simp
  moreover have "inv_listeners ?s'"
    unfolding inv_listeners_def
  proof (intro allI impI)
    fix sg x
    assume a: "EntryAbort x \<in> set (listeners ?s' sg)"
    show "x \<in> set (queue ?s') \<and>
       RemoveAbortListener sg (EntryAbort x) \<in> set (cleanup (entries ?s' x))"
    proof (cases "EntryAbort x \<in> set (listeners s sg)")
      case True
      with j(6) have b: "x \<in> set (queue s)"
        "RemoveAbortListener sg (EntryAbort x) \<in> set (cleanup (entries s x))"
        unfolding inv_listeners_def by blast+
      from below [OF b(1)] have "x \<noteq> ?e" by simp
      then show ?thesis using b by (simp add: f)
    next
      case False
      with a have "signal = Some sg \<and> x = ?e"
        unfolding f by (auto split: option.splits if_splits)
      then show ?thesis unfolding f by (simp add: entry_closures_def)
    qed
  qed
  moreover have "inv_timers ?s'"
    unfolding inv_timers_def
  proof (intro allI impI)
    fix x
    assume a: "EntryTimer x \<in> set (timers ?s')"
    show "x \<in> set (queue ?s') \<and> ClearTimeout (EntryTimer x) \<in> set (cleanup (entries ?s' x))"
    proof (cases "EntryTimer x \<in> set (timers s)")
      case True
      with j(7) have b: "x \<in> set (queue s)"
        "ClearTimeout (EntryTimer x) \<in> set (cleanup (entries s x))"
        unfolding inv_timers_def by blast+
      from below [OF b(1)] have "x \<noteq> ?e" by simp
      then show ?thesis using b by (simp add: f)
    next
      case False
      with a have "qt \<noteq> None \<and> x = ?e"
        unfolding f by (auto split: option.splits)
      then show ?thesis unfolding f by (auto simp: entry_closures_def)
    qed
  qed
  ultimately show ?thesis unfolding limiter_inv_def struct_inv_def by simp
qed

lemma limiter_inv_acquire:
  assumes "limiter_inv s"
  shows "limiter_inv (snd (acquire signal qt s))"
  using assms limiter_inv_admit [of s] limiter_inv_waitForTurn [of s signal qt]
  by (simp add: acquire_def Let_def)

lemma limiter_inv_run:
  assumes "limiter_inv s"
  shows "limiter_inv (snd (run options s))"
  using assms limiter_inv_acquire [of s]
  by (simp add: run_def Let_def split: option.split)

lemma limiter_inv_call_listener:
  assumes inv: "limiter_inv s" and l: "l \<in> set (listeners s sg)"
  shows "limiter_inv (call_listener l
           (s\<lparr>listeners := (listeners s)(sg := removeAll l (listeners s sg))\<rparr>))"
proof -
  define s0 where "s0 = s\<lparr>listeners := (listeners s)(sg := removeAll l (listeners s sg))\<rparr>"
  have "shrinks s s0"
    by (auto simp: shrinks_def struct_shrinks_def s0_def)
  then have g0: "limiter_inv s0" using limiter_inv_shrinks [OF inv] by simp
  show ?thesis
  proof (cases l)
    case (EntryAbort e)
    from inv l have "e \<in> set (queue s)"
      unfolding limiter_inv_def struct_inv_def inv_listeners_def EntryAbort by blast
    then have "e \<in> set (queue s0)" by (simp add: s0_def)
    then show ?thesis
      using limiter_inv_cancel [OF g0] by (simp add: EntryAbort s0_def)
  next
    case (IdleAbort w)
    show ?thesis
      using limiter_inv_shrinks [OF g0 shrinks_finish] by (simp add: IdleAbort s0_def)
  qed
qed

lemma limiter_inv_dispatch:
  assumes "limiter_inv s"
  shows "limiter_inv (dispatch sg ls s)"
  using assms
proof (induction ls arbitrary: s)
  case Nil
  then show ?case by simp
next
  case (Cons l ls)
  show ?case
  proof (cases "l \<in> set (listeners s sg)")
    case True
    then show ?thesis
      using Cons.IH [OF limiter_inv_call_listener [OF Cons.prems True]] by simp
  next
    case False
    then show ?thesis using Cons.IH [OF Cons.prems] by simp
  qed
qed

lemma limiter_inv_abort:
  assumes "limiter_inv s"
  shows "limiter_inv (abort sg s)"
proof (cases "aborted s sg")
  case True
  then show ?thesis using assms by (simp add: abort_def)
next
  case False
  have "shrinks s (s\<lparr>aborted := (aborted s)(sg := True)\<rparr>)"
    by (simp add: shrinks_def struct_shrinks_def)
  then have "limiter_inv (s\<lparr>aborted := (aborted s)(sg := True)\<rparr>)"
    using limiter_inv_shrinks [OF assms] by simp
  then show ?thesis
    using False limiter_inv_dispatch by (simp add: abort_def Let_def)
qed

lemma limiter_inv_timer:
  assumes inv: "limiter_inv s"
  shows "limiter_inv (fire (TimerFires t) s)"
proof (cases "t \<in> set (timers s)")
  case False
  then show ?thesis using inv by simp
next
  case True
  define s0 where "s0 = s\<lparr>timers := removeAll t (timers s)\<rparr>"
  have "shrinks s s0"
    by (auto simp: shrinks_def struct_shrinks_def s0_def)
  then have g0: "limiter_inv s0" using limiter_inv_shrinks [OF inv] by simp
  show ?thesis
  proof (cases t)
    case (EntryTimer e)
    from inv True have "e \<in> set (queue s)"
      unfolding limiter_inv_def struct_inv_def inv_timers_def EntryTimer by blast
    then have "e \<in> set (queue s0)" by (simp add: s0_def)
    then show ?thesis
      using limiter_inv_cancel [OF g0] True by (simp add: EntryTimer s0_def)
  next
    case (IdleTimer w)
    show ?thesis
      using limiter_inv_shrinks [OF g0 shrinks_finish] True by (simp add: IdleTimer s0_def)
  qed
qed

definition idle_closures :: "wid \<Rightarrow> sid option \<Rightarrow> jsnum option \<Rightarrow> cleanup_fn list" where
  "idle_closures w signal timeoutMs =
     DeleteIdleWaiter w #
     (case signal of None \<Rightarrow> [] | Some sg \<Rightarrow> [RemoveAbortListener sg (IdleAbort w)]) @
     (case timeoutMs of None \<Rightarrow> [] | Some ms \<Rightarrow> [ClearTimeout (IdleTimer w)])"

text \<open>The state in which \<^verbatim>\<open>onIdle\<close> calls \<^verbatim>\<open>emitIdleIfNeeded\<close> when it has to wait.\<close>

definition registered_idle :: "IdleOptions \<Rightarrow> state \<Rightarrow> state" where
  "registered_idle options s =
     s\<lparr>idleWaiters := idleWaiters s @ [next_idle s],
       idles := (idles s)(next_idle s :=
          \<lparr>i_done = False,
           i_cleanups = idle_closures (next_idle s) (io_signal options) (io_timeoutMs options),
           i_result = None\<rparr>),
       next_idle := Suc (next_idle s),
       listeners := (case io_signal options of
          None \<Rightarrow> listeners s
        | Some sg \<Rightarrow> (listeners s)(sg := listeners s sg @ [IdleAbort (next_idle s)])),
       timers := (case io_timeoutMs options of
          None \<Rightarrow> timers s
        | Some ms \<Rightarrow> timers s @ [IdleTimer (next_idle s)])\<rparr>"

lemma onIdle_waits:
  assumes "assertValidTimeoutMs (io_timeoutMs options) = None"
    and "\<not> is_aborted (io_signal options) s"
    and "\<not> (active s = 0 \<and> queue s = [])"
  shows "onIdle options s = (Inr (Some (next_idle s)), emitIdleIfNeeded (registered_idle options s))"
  using assms
  by (cases "io_signal options"; cases "io_timeoutMs options";
      simp add: onIdle_def Let_def addAbortHandler_def idle_cleanup_push_def empty_idle_def
        registered_idle_def idle_closures_def;
      intro arg_cong [where f = emitIdleIfNeeded] state.equality; simp)

lemma onIdle_cases:
  "snd (onIdle options s) = s \<or>
   snd (onIdle options s) = emitIdleIfNeeded (registered_idle options s)"
proof (cases "assertValidTimeoutMs (io_timeoutMs options) = None \<and>
    \<not> is_aborted (io_signal options) s \<and> \<not> (active s = 0 \<and> queue s = [])")
  case True
  then show ?thesis using onIdle_waits [of options s] by simp
next
  case False
  then show ?thesis by (auto simp: onIdle_def split: option.splits)
qed

lemma shrinks_registered_idle: "shrinks s (registered_idle options s)"
  by (auto simp: shrinks_def struct_shrinks_def registered_idle_def split: option.splits)

lemma limiter_inv_onIdle:
  assumes "limiter_inv s"
  shows "limiter_inv (snd (onIdle options s))"
  using onIdle_cases [of options s] assms
    limiter_inv_shrinks [OF assms shrinks_trans [OF shrinks_registered_idle shrinks_emitIdleIfNeeded]]
  by auto

lemma limiter_inv_fire:
  assumes "limiter_inv s"
  shows "limiter_inv (fire ev s)"
proof (cases ev)
  case (Run options)
  then show ?thesis using limiter_inv_run [OF assms] by simp
next
  case (TaskDone r res)
  then show ?thesis using limiter_inv_run_finally [OF assms] assms by simp
next
  case (Abort sg)
  then show ?thesis using limiter_inv_abort [OF assms] by simp
next
  case (TimerFires t)
  then show ?thesis using limiter_inv_timer [OF assms] by simp
next
  case (OnIdle options)
  then show ?thesis using limiter_inv_onIdle [OF assms] by simp
qed

lemma reachable_limiter_inv: "reachable s \<Longrightarrow> limiter_inv s"
  by (induction rule: reachable.induct) (simp_all add: limiter_inv_init limiter_inv_fire)


lemma call_listener_frame [simp]:
  "active (call_listener l s) = active s"
  "limit (call_listener l s) = limit s"
  "next_run (call_listener l s) = next_run s"
  by (cases l; simp)+

lemma call_timer_frame [simp]:
  "active (call_timer t s) = active s"
  "limit (call_timer t s) = limit s"
  "next_run (call_timer t s) = next_run s"
  by (cases t; simp)+

lemma dispatch_frame [simp]:
  "active (dispatch sg ls s) = active s"
  "limit (dispatch sg ls s) = limit s"
  "next_run (dispatch sg ls s) = next_run s"
  by (induction ls arbitrary: s; simp)+

lemma abort_frame [simp]:
  "active (abort sg s) = active s"
  "limit (abort sg s) = limit s"
  "next_run (abort sg s) = next_run s"
  by (simp_all add: abort_def Let_def)

lemma registered_idle_frame [simp]:
  "active (registered_idle options s) = active s"
  "queue (registered_idle options s) = queue s"
  "limit (registered_idle options s) = limit s"
  "entries (registered_idle options s) = entries s"
  "runs (registered_idle options s) = runs s"
  "next_run (registered_idle options s) = next_run s"
  "invoked (registered_idle options s) = invoked s"
  by (simp_all add: registered_idle_def)

lemma onIdle_frame [simp]:
  "active (snd (onIdle options s)) = active s"
  "queue (snd (onIdle options s)) = queue s"
  "limit (snd (onIdle options s)) = limit s"
  "entries (snd (onIdle options s)) = entries s"
  "runs (snd (onIdle options s)) = runs s"
  "next_run (snd (onIdle options s)) = next_run s"
  using onIdle_cases [of options s] by auto

lemma acquire_active:
  "active (snd (acquire signal qt s)) =
     (if \<not> is_aborted signal s \<and> js_lt (Fin (of_int (active s))) (limit s)
      then active s + 1 else active s)"
  by (simp add: acquire_def Let_def waitForTurn_def addAbortHandler_def entry_cleanup_push_def
      split: option.splits)

lemma run_active:
  "active (snd (run options s)) = active s \<or>
   (active (snd (run options s)) = active s + 1 \<and> js_lt (Fin (of_int (active s))) (limit s))"
  by (simp add: run_def Let_def acquire_active split: option.splits)

lemma release_active:
  "active (release s) = active s \<or> active (release s) = active s - 1"
  using release_handed_off [of s]
  by (auto simp: handed_off_def split: option.splits)

lemma fire_active:
  "active (fire ev s) \<le> active s + 1 \<and>
   (active (fire ev s) = active s + 1 \<longrightarrow>
      (\<exists>options. ev = Run options) \<and> js_lt (Fin (of_int (active s))) (limit s))"
proof (cases ev)
  case (Run options)
  then show ?thesis using run_active [of options s] by auto
next
  case (TaskDone r res)
  then show ?thesis using release_active [of s] by (auto simp: run_finally_eq)
next
  case (Abort sg)
  then show ?thesis by simp
next
  case (TimerFires t)
  then show ?thesis by simp
next
  case (OnIdle options)
  then show ?thesis by simp
qed

lemma reachable_fold: "reachable s \<Longrightarrow> reachable (fold fire evs s)"
  by (induction evs arbitrary: s) (simp_all add: reachable.step)

lemma Limiter_limiter_of: "0 < n \<Longrightarrow> Limiter (Fin n) no_options = Inr (limiter_of n)"
  by (simp add: limiter_of_def Limiter_def no_options_def assertValidLimit_def
      assertValidMaxQueue_def assertValidTimeoutMs_def)

lemma reachable_limiter_of: "0 < n \<Longrightarrow> reachable (fold fire evs (limiter_of n))"
  using reachable_fold [OF reachable.init [OF Limiter_limiter_of]] by simp

lemma waitForTurn_runs_other:
  "x \<noteq> next_run s \<Longrightarrow> runs (snd (waitForTurn signal qt s)) x = runs s x"
  by (cases "is_aborted signal s") (simp_all add: waitForTurn_fields, simp add: waitForTurn_def)

lemma acquire_runs_other:
  "x \<noteq> next_run s \<Longrightarrow> runs (snd (acquire signal qt s)) x = runs s x"
  by (simp add: acquire_def Let_def waitForTurn_runs_other)

lemma run_runs_other:
  "x \<noteq> next_run s \<Longrightarrow> runs (snd (run options s)) x = runs s x"
  by (simp add: run_def Let_def acquire_runs_other split: option.splits)

lemma defer_reject_not_Running:
  "runs (snd (defer_reject e err s)) x = Some Running \<Longrightarrow> runs s x = Some Running"
  by (auto simp: defer_reject_def split: if_splits)

lemma call_listener_not_Running:
  "runs (call_listener l s) x = Some Running \<Longrightarrow> runs s x = Some Running"
  by (cases l) (auto dest: defer_reject_not_Running)

lemma call_timer_not_Running:
  "runs (call_timer t s) x = Some Running \<Longrightarrow> runs s x = Some Running"
  by (cases t) (auto dest: defer_reject_not_Running)

lemma dispatch_not_Running:
  "runs (dispatch sg ls s) x = Some Running \<Longrightarrow> runs s x = Some Running"
proof (induction ls arbitrary: s)
  case Nil
  then show ?case by simp
next
  case (Cons l ls)
  show ?case
  proof (cases "l \<in> set (listeners s sg)")
    case True
    with Cons.prems have "runs (dispatch sg ls (call_listener l
        (s\<lparr>listeners := (listeners s)(sg := removeAll l (listeners s sg))\<rparr>))) x = Some Running"
      by simp
    from call_listener_not_Running [OF Cons.IH [OF this]] show ?thesis by simp
  next
    case False
    with Cons.prems Cons.IH show ?thesis by simp
  qed
qed

lemma abort_not_Running:
  "runs (abort sg s) x = Some Running \<Longrightarrow> runs s x = Some Running"
  by (auto simp: abort_def Let_def dest: dispatch_not_Running split: if_splits)

section \<open>Calls of a Defer, and what release keeps\<close>

lemma release_preserves:
  assumes q: "\<And>s q. P s \<Longrightarrow> P (s\<lparr>queue := q\<rparr>)"
    and a: "\<And>s n. P s \<Longrightarrow> P (s\<lparr>active := n\<rparr>)"
    and rem: "\<And>s e. P s \<Longrightarrow> P (entry_remove e s)"
    and res: "\<And>s e. P s \<Longrightarrow> P (snd (defer_resolve e s))"
    and emit: "\<And>s. P s \<Longrightarrow> P (emitIdleIfNeeded s)"
  shows "P s \<Longrightarrow> P (release s)"
proof (induction s rule: release.induct)
  case (1 s)
  obtain x s1 where sn: "shiftNext s = (x, s1)" by (cases "shiftNext s")
  then have s1: "s1 = s\<lparr>queue := queue s1\<rparr>"
    by (auto simp: shiftNext_def Let_def)
  have P1: "P s1" using q [OF "1.prems", of "queue s1"] s1 by simp
  show ?case
  proof (cases x)
    case None
    then show ?thesis
      using emit [OF a [OF P1, of "active s1 - 1"]] by (simp add: release.simps [of s] sn)
  next
    case (Some n)
    define r where "r = defer_resolve n (entry_remove n s1)"
    have Pr: "P (snd r)" unfolding r_def using res [OF rem [OF P1]] .
    show ?thesis
    proof (cases "fst r")
      case True
      then show ?thesis using Pr by (simp add: release.simps [of s] sn Some Let_def r_def)
    next
      case False
      have "P (release (snd r))"
        using "1.IH" [of x s1 n r] sn Some False Pr by (simp add: r_def)
      then show ?thesis using False by (simp add: release.simps [of s] sn Some Let_def r_def)
    qed
  qed
qed

lemma release_next_run [simp]: "next_run (release s) = next_run s"
  using release_preserves [of "\<lambda>t. next_run t = next_run s" s] by simp

lemma release_limit [simp]: "limit (release s) = limit s"
  using release_preserves [of "\<lambda>t. limit t = limit s" s] by simp

datatype defer_op = Resolve | Reject error

fun defer_call :: "eid \<Rightarrow> defer_op \<Rightarrow> state \<Rightarrow> bool \<times> state" where
  "defer_call e Resolve s = defer_resolve e s"
| "defer_call e (Reject err) s = defer_reject e err s"

lemma settled_defer_reject:
  "settled (entries s x) \<Longrightarrow> settled (entries (snd (defer_reject e err s)) x)"
  by (simp add: defer_reject_def)

lemma settled_removeFromQueue:
  "settled (entries (removeFromQueue e s) x) = settled (entries s x)"
  by (simp add: entries_removeFromQueue)

lemma settled_call_listener:
  "settled (entries s x) \<Longrightarrow> settled (entries (call_listener l s) x)"
  by (cases l) (simp_all add: settled_defer_reject settled_removeFromQueue)

lemma settled_call_timer:
  "settled (entries s x) \<Longrightarrow> settled (entries (call_timer t s) x)"
  by (cases t) (simp_all add: settled_defer_reject settled_removeFromQueue)

lemma settled_dispatch:
  "settled (entries s x) \<Longrightarrow> settled (entries (dispatch sg ls s) x)"
proof (induction ls arbitrary: s)
  case Nil
  then show ?case by simp
next
  case (Cons l ls)
  show ?case
  proof (cases "l \<in> set (listeners s sg)")
    case True
    have "settled (entries (call_listener l
        (s\<lparr>listeners := (listeners s)(sg := removeAll l (listeners s sg))\<rparr>)) x)"
      using Cons.prems by (intro settled_call_listener) simp
    from Cons.IH [OF this] True show ?thesis by simp
  next
    case False
    then show ?thesis using Cons.IH [OF Cons.prems] by simp
  qed
qed

lemma settled_release:
  "settled (entries s x) \<Longrightarrow> settled (entries (release s) x)"
  using release_handed_off [of s]
  by (auto simp: handed_off_def split: option.splits)

lemma waitForTurn_entries_other:
  "x \<noteq> next_run s \<Longrightarrow> entries (snd (waitForTurn signal qt s)) x = entries s x"
  by (cases "is_aborted signal s") (simp_all add: waitForTurn_fields, simp add: waitForTurn_def)

lemma waitForTurn_next_run:
  "next_run s \<le> next_run (snd (waitForTurn signal qt s))"
  by (cases "is_aborted signal s") (simp_all add: waitForTurn_fields, simp add: waitForTurn_def)

lemma run_entries_other:
  "x \<noteq> next_run s \<Longrightarrow> entries (snd (run options s)) x = entries s x"
  by (simp add: run_def acquire_def Let_def waitForTurn_entries_other split: option.splits)

lemma run_next_run:
  "next_run s \<le> next_run (snd (run options s))"
  using waitForTurn_next_run [of s]
  by (simp add: run_def acquire_def Let_def split: option.splits)

lemma settled_fire:
  assumes "e < next_run s" and "settled (entries s e)"
  shows "e < next_run (fire ev s) \<and> settled (entries (fire ev s) e)"
proof (cases ev)
  case (Run options)
  then show ?thesis
    using assms run_entries_other [of e s options] run_next_run [of s options] by simp
next
  case (TaskDone r res)
  then show ?thesis
    using assms settled_release [of s e] by (simp add: run_finally_eq)
next
  case (Abort sg)
  then show ?thesis
    using assms settled_dispatch [of "s\<lparr>aborted := (aborted s)(sg := True)\<rparr>" e sg]
    by (simp add: abort_def Let_def)
next
  case (TimerFires t)
  then show ?thesis
    using assms settled_call_timer [of "s\<lparr>timers := removeAll t (timers s)\<rparr>" e t] by simp
next
  case (OnIdle options)
  then show ?thesis using assms by simp
qed

lemma settled_fold_fire:
  assumes "e < next_run s" and "settled (entries s e)"
  shows "e < next_run (fold fire evs s) \<and> settled (entries (fold fire evs s) e)"
  using assms
proof (induction evs arbitrary: s)
  case Nil
  then show ?case by simp
next
  case (Cons ev evs)
  from settled_fire [OF Cons.prems, of ev] Cons.IH [of "fire ev s"] show ?case by simp
qed

lemma defer_call_settled: "settled (entries s e) \<Longrightarrow> defer_call e c s = (False, s)"
  by (cases c) (simp_all add: defer_resolve_def defer_reject_def)

lemma defer_call_first:
  "\<not> settled (entries s e) \<Longrightarrow>
     fst (defer_call e c s) \<and> settled (entries (snd (defer_call e c s)) e) \<and>
     next_run (snd (defer_call e c s)) = next_run s"
  by (cases c) (simp_all add: defer_resolve_def defer_reject_def)

lemma defer_call_runs:
  "\<not> settled (entries s e) \<Longrightarrow>
     runs (snd (defer_call e c s)) =
       (runs s)(e \<mapsto> (case c of Resolve \<Rightarrow> Running | Reject err \<Rightarrow> Finished (Inl err)))"
  by (cases c) (simp_all add: defer_resolve_def defer_reject_def)

lemma js_le_not_lt: "js_le b a \<Longrightarrow> \<not> js_lt a b"
  by (cases a; cases b) simp_all

section \<open>The record of cleanup calls\<close>

text \<open>\<open>owner f\<close> is the queue entry whose cleanup list the closure \<open>f\<close> is made for, if any;
  \<open>closures_of s e\<close> are the closures that \<^verbatim>\<open>waitForTurn\<close> pushed on the list of entry \<open>e\<close>.\<close>

fun owner :: "cleanup_fn \<Rightarrow> eid option" where
  "owner (RemoveAbortListener sg (EntryAbort e)) = Some e"
| "owner (RemoveAbortListener sg (IdleAbort w)) = None"
| "owner (ClearTimeout (EntryTimer e)) = Some e"
| "owner (ClearTimeout (IdleTimer w)) = None"
| "owner (DeleteIdleWaiter w) = None"

definition closures_of :: "state \<Rightarrow> eid \<Rightarrow> cleanup_fn list" where
  "closures_of s e =
     entry_closures e (e_signal (entries s e)) (e_queueTimeoutMs (entries s e))"

definition log_inv :: "state \<Rightarrow> bool" where
  "log_inv s \<longleftrightarrow>
     (\<forall>e. cleanup (entries s e) = (if removed (entries s e) then [] else closures_of s e)) \<and>
     (\<forall>e f. f \<in> set (closures_of s e) \<longrightarrow>
        count_list (invoked s) f = (if removed (entries s e) then 1 else 0)) \<and>
     (\<forall>e. next_run s \<le> e \<longrightarrow> closures_of s e = []) \<and>
     (\<forall>f\<in>set (invoked s). \<forall>e. owner f = Some e \<longrightarrow> e < next_run s) \<and>
     (\<forall>w. \<forall>f\<in>set (i_cleanups (idles s w)). owner f = None)"

lemma owner_entry_closures: "f \<in> set (entry_closures e sg qt) \<Longrightarrow> owner f = Some e"
  by (auto simp: entry_closures_def split: option.splits)

lemma distinct_entry_closures: "distinct (entry_closures e sg qt)"
  by (simp add: entry_closures_def split: option.splits)

lemma count_list_distinct: "distinct xs \<Longrightarrow> x \<in> set xs \<Longrightarrow> count_list xs x = 1"
  by (induction xs) auto

lemma owner_idle_closures: "f \<in> set (idle_closures w sg ms) \<Longrightarrow> owner f = None"
  by (auto simp: idle_closures_def split: option.splits)

lemma log_inv_entry_remove:
  assumes "log_inv s"
  shows "log_inv (entry_remove e s)"
proof (cases "removed (entries s e)")
  case True
  then show ?thesis using assms by (simp add: entry_remove_def)
next
  case False
  let ?s' = "entry_remove e s"
  from assms have l1: "\<And>x. cleanup (entries s x) = (if removed (entries s x) then [] else closures_of s x)"
    and l3: "\<And>x f. f \<in> set (closures_of s x) \<Longrightarrow>
        count_list (invoked s) f = (if removed (entries s x) then 1 else 0)"
    and l4: "\<And>x. next_run s \<le> x \<Longrightarrow> closures_of s x = []"
    and l5: "\<And>f x. f \<in> set (invoked s) \<Longrightarrow> owner f = Some x \<Longrightarrow> x < next_run s"
    and l6: "\<And>w f. f \<in> set (i_cleanups (idles s w)) \<Longrightarrow> owner f = None"
    unfolding log_inv_def by blast+
  have ce: "cleanup (entries s e) = closures_of s e" using l1 [of e] False by simp
  have en: "entries ?s' = (entries s)(e := (entries s e)\<lparr>removed := True, cleanup := []\<rparr>)"
    using False by (simp add: entries_entry_remove)
  have iv: "invoked ?s' = invoked s @ closures_of s e"
    using False by (simp add: invoked_entry_remove ce)
  have cl: "\<And>x. closures_of ?s' x = closures_of s x"
    by (simp add: closures_of_def en)
  have "cleanup (entries ?s' x) = (if removed (entries ?s' x) then [] else closures_of ?s' x)" for x
    using l1 [of x] by (simp add: cl en)
  moreover have "count_list (invoked ?s') f = (if removed (entries ?s' x) then 1 else 0)"
    if f: "f \<in> set (closures_of ?s' x)" for x f
  proof (cases "x = e")
    case True
    with f have fe: "f \<in> set (closures_of s e)" by (simp add: cl)
    have "count_list (closures_of s e) f = 1"
      using fe by (intro count_list_distinct) (simp_all add: closures_of_def distinct_entry_closures)
    moreover have "count_list (invoked s) f = 0" using l3 [OF fe] False by simp
    ultimately show ?thesis by (simp add: iv en True)
  next
    case ne: False
    from f have fx: "f \<in> set (closures_of s x)" by (simp add: cl)
    then have "owner f = Some x" by (auto simp: closures_of_def dest: owner_entry_closures)
    then have "f \<notin> set (closures_of s e)"
      using ne by (auto simp: closures_of_def dest: owner_entry_closures)
    then show ?thesis using l3 [OF fx] ne by (simp add: iv en)
  qed
  moreover have "closures_of ?s' x = []" if "next_run ?s' \<le> x" for x
    using that l4 [of x] by (simp add: cl)
  moreover have "x < next_run ?s'" if "f \<in> set (invoked ?s')" "owner f = Some x" for f x
  proof (cases "f \<in> set (invoked s)")
    case True
    then show ?thesis using l5 that(2) by simp
  next
    case nf: False
    with that(1) have fe: "f \<in> set (closures_of s e)" by (simp add: iv)
    then have "owner f = Some e" by (auto simp: closures_of_def dest: owner_entry_closures)
    with that(2) have "x = e" by simp
    moreover have "e < next_run s"
    proof (rule ccontr)
      assume "\<not> e < next_run s"
      then have "closures_of s e = []" using l4 [of e] by simp
      with fe show False by simp
    qed
    ultimately show ?thesis by simp
  qed
  moreover have "owner f = None" if "f \<in> set (i_cleanups (idles ?s' w))" for w f
    using that l6 by simp
  ultimately show ?thesis unfolding log_inv_def by blast
qed

lemma idles_finish:
  "idles (finish w err s) =
     (if i_done (idles s w) then idles s
      else (idles s)(w := \<lparr>i_done = True, i_cleanups = [],
              i_result = Some (case err of Some e \<Rightarrow> Inl e | None \<Rightarrow> Inr ())\<rparr>))"
  by (auto simp: finish_def Let_def fun_eq_iff)

lemma invoked_finish:
  "invoked (finish w err s) =
     (if i_done (idles s w) then invoked s else invoked s @ i_cleanups (idles s w))"
  by (simp add: finish_def Let_def)

lemma log_inv_finish:
  assumes "log_inv s"
  shows "log_inv (finish w err s)"
proof (cases "i_done (idles s w)")
  case True
  then show ?thesis using assms by (simp add: finish_def)
next
  case False
  let ?s' = "finish w err s"
  from assms have l1: "\<And>x. cleanup (entries s x) = (if removed (entries s x) then [] else closures_of s x)"
    and l3: "\<And>x f. f \<in> set (closures_of s x) \<Longrightarrow>
        count_list (invoked s) f = (if removed (entries s x) then 1 else 0)"
    and l4: "\<And>x. next_run s \<le> x \<Longrightarrow> closures_of s x = []"
    and l5: "\<And>f x. f \<in> set (invoked s) \<Longrightarrow> owner f = Some x \<Longrightarrow> x < next_run s"
    and l6: "\<And>w f. f \<in> set (i_cleanups (idles s w)) \<Longrightarrow> owner f = None"
    unfolding log_inv_def by blast+
  have iv: "invoked ?s' = invoked s @ i_cleanups (idles s w)"
    using False by (simp add: invoked_finish)
  have cl: "\<And>x. closures_of ?s' x = closures_of s x"
    by (simp add: closures_of_def)
  have "cleanup (entries ?s' x) = (if removed (entries ?s' x) then [] else closures_of ?s' x)" for x
    using l1 [of x] by (simp add: cl)
  moreover have "count_list (invoked ?s') f = (if removed (entries ?s' x) then 1 else 0)"
    if f: "f \<in> set (closures_of ?s' x)" for x f
  proof -
    from f have fx: "f \<in> set (closures_of s x)" by (simp add: cl)
    then have "owner f = Some x" by (auto simp: closures_of_def dest: owner_entry_closures)
    then have "f \<notin> set (i_cleanups (idles s w))" using l6 [of f w] by auto
    then show ?thesis using l3 [OF fx] by (simp add: iv)
  qed
  moreover have "closures_of ?s' x = []" if "next_run ?s' \<le> x" for x
    using that l4 [of x] by (simp add: cl)
  moreover have "x < next_run ?s'" if "f \<in> set (invoked ?s')" "owner f = Some x" for f x
    using that l5 [of f x] l6 [of f w] by (auto simp: iv)
  moreover have "owner f = None" if "f \<in> set (i_cleanups (idles ?s' v))" for v f
    using that l6 [of f v] False by (auto simp: idles_finish split: if_splits)
  ultimately show ?thesis unfolding log_inv_def by blast
qed

lemma log_inv_fold_finish:
  "log_inv s \<Longrightarrow> log_inv (fold (\<lambda>w. finish w err) ws s)"
  by (induction ws arbitrary: s) (simp_all add: log_inv_finish)

lemma log_inv_emitIdleIfNeeded: "log_inv s \<Longrightarrow> log_inv (emitIdleIfNeeded s)"
  by (simp add: emitIdleIfNeeded_def log_inv_fold_finish)

lemma log_inv_other_fields [simp]:
  "log_inv (s\<lparr>queue := q\<rparr>) = log_inv s"
  "log_inv (s\<lparr>active := n\<rparr>) = log_inv s"
  "log_inv (s\<lparr>runs := rs\<rparr>) = log_inv s"
  "log_inv (s\<lparr>listeners := ls\<rparr>) = log_inv s"
  "log_inv (s\<lparr>timers := ts\<rparr>) = log_inv s"
  "log_inv (s\<lparr>aborted := ab\<rparr>) = log_inv s"
  by (simp_all add: log_inv_def closures_of_def)

lemma log_inv_defer_resolve: "log_inv s \<Longrightarrow> log_inv (snd (defer_resolve e s))"
  by (simp add: defer_resolve_def log_inv_def closures_of_def)

lemma log_inv_defer_reject: "log_inv s \<Longrightarrow> log_inv (snd (defer_reject e err s))"
  by (simp add: defer_reject_def log_inv_def closures_of_def)

lemma log_inv_removeFromQueue: "log_inv s \<Longrightarrow> log_inv (removeFromQueue e s)"
  by (simp add: removeFromQueue_def Let_def log_inv_emitIdleIfNeeded log_inv_entry_remove)

lemma log_inv_release: "log_inv s \<Longrightarrow> log_inv (release s)"
  by (rule release_preserves [of log_inv])
    (simp_all add: log_inv_entry_remove log_inv_defer_resolve log_inv_emitIdleIfNeeded)

lemma log_inv_call_listener: "log_inv s \<Longrightarrow> log_inv (call_listener l s)"
  by (cases l) (simp_all add: log_inv_defer_reject log_inv_removeFromQueue log_inv_finish)

lemma log_inv_call_timer: "log_inv s \<Longrightarrow> log_inv (call_timer t s)"
  by (cases t) (simp_all add: log_inv_defer_reject log_inv_removeFromQueue log_inv_finish)

lemma log_inv_dispatch: "log_inv s \<Longrightarrow> log_inv (dispatch sg ls s)"
  by (induction ls arbitrary: s) (simp_all add: log_inv_call_listener)

lemma log_inv_admit:
  assumes "log_inv s"
  shows "log_inv (s\<lparr>active := n, runs := rs, next_run := Suc (next_run s)\<rparr>)"
  using assms unfolding log_inv_def closures_of_def
  by (auto simp: less_Suc_eq)

lemma log_inv_waitForTurn:
  assumes "log_inv s"
  shows "log_inv (snd (waitForTurn signal qt s))"
proof (cases "is_aborted signal s")
  case True
  then show ?thesis using assms by (simp add: waitForTurn_def)
next
  case False
  let ?n = "next_run s"
  let ?s' = "snd (waitForTurn signal qt s)"
  note f = waitForTurn_fields [OF False, of qt]
  from assms have l1: "\<And>x. cleanup (entries s x) = (if removed (entries s x) then [] else closures_of s x)"
    and l3: "\<And>x f. f \<in> set (closures_of s x) \<Longrightarrow>
        count_list (invoked s) f = (if removed (entries s x) then 1 else 0)"
    and l4: "\<And>x. next_run s \<le> x \<Longrightarrow> closures_of s x = []"
    and l5: "\<And>f x. f \<in> set (invoked s) \<Longrightarrow> owner f = Some x \<Longrightarrow> x < next_run s"
    and l6: "\<And>w f. f \<in> set (i_cleanups (idles s w)) \<Longrightarrow> owner f = None"
    unfolding log_inv_def by blast+
  have cl: "closures_of ?s' x = (if x = ?n then entry_closures ?n signal qt else closures_of s x)"
    for x
    by (simp add: closures_of_def f)
  have "cleanup (entries ?s' x) = (if removed (entries ?s' x) then [] else closures_of ?s' x)" for x
    using l1 [of x] by (simp add: cl) (simp add: f)
  moreover have "count_list (invoked ?s') g = (if removed (entries ?s' x) then 1 else 0)"
    if g: "g \<in> set (closures_of ?s' x)" for x g
  proof (cases "x = ?n")
    case True
    with g have "owner g = Some ?n" by (auto simp: cl dest: owner_entry_closures)
    then have "g \<notin> set (invoked s)" using l5 [of g ?n] by auto
    then show ?thesis using True by (simp add: f)
  next
    case False
    with g l3 [of g x] show ?thesis by (simp add: cl f)
  qed
  moreover have "closures_of ?s' x = []" if "next_run ?s' \<le> x" for x
    using that l4 [of x] by (simp add: cl f)
  moreover have "x < next_run ?s'" if "g \<in> set (invoked ?s')" "owner g = Some x" for g x
    using that l5 [of g x] by (simp add: f)
  moreover have "owner g = None" if "g \<in> set (i_cleanups (idles ?s' w))" for w g
    using that l6 [of g w] by (simp add: f)
  ultimately show ?thesis unfolding log_inv_def by blast
qed

lemma log_inv_run: "log_inv s \<Longrightarrow> log_inv (snd (run options s))"
  using log_inv_admit [of s] log_inv_waitForTurn [of s]
  by (simp add: run_def acquire_def Let_def split: option.splits)

lemma log_inv_registered_idle:
  assumes "log_inv s"
  shows "log_inv (registered_idle options s)"
  using assms unfolding log_inv_def closures_of_def
  by (auto simp: registered_idle_def dest: owner_idle_closures)

lemma log_inv_onIdle: "log_inv s \<Longrightarrow> log_inv (snd (onIdle options s))"
  using onIdle_cases [of options s] log_inv_emitIdleIfNeeded [OF log_inv_registered_idle]
  by auto

lemma log_inv_fire:
  assumes "log_inv s"
  shows "log_inv (fire ev s)"
proof (cases ev)
  case (Run options)
  then show ?thesis using log_inv_run [OF assms] by simp
next
  case (TaskDone r res)
  then show ?thesis using log_inv_release [OF assms] assms by (simp add: run_finally_eq)
next
  case (Abort sg)
  then show ?thesis using assms by (simp add: abort_def Let_def log_inv_dispatch)
next
  case (TimerFires t)
  then show ?thesis using assms by (simp add: log_inv_call_timer)
next
  case (OnIdle options)
  then show ?thesis using log_inv_onIdle [OF assms] by simp
qed

lemma log_inv_init:
  assumes "Limiter lmt options = Inr s"
  shows "log_inv s"
proof -
  from assms have s: "entries s = (\<lambda>_. empty_entry)" "invoked s = []" "idles s = (\<lambda>_. empty_idle)"
    by (auto simp: Limiter_def Let_def split: option.splits)
  show ?thesis
    unfolding log_inv_def closures_of_def
    by (simp add: s empty_entry_def empty_idle_def entry_closures_def)
qed

lemma reachable_log_inv: "reachable s \<Longrightarrow> log_inv s"
  by (induction rule: reachable.induct) (simp_all add: log_inv_init log_inv_fire)

lemma entry_remove_idem: "entry_remove e (entry_remove e s) = entry_remove e s"
proof -
  have "removed (entries (entry_remove e s) e)"
    by (simp add: entries_entry_remove)
  then show ?thesis by (simp add: entry_remove_def [of e "entry_remove e s"])
qed

lemma removeFromQueue_idem: "removeFromQueue e (removeFromQueue e s) = removeFromQueue e s"
proof -
  have "removed (entries (removeFromQueue e s) e)"
    by (simp add: entries_removeFromQueue)
  then show ?thesis by (simp add: removeFromQueue_def [of e "removeFromQueue e s"])
qed

section \<open>Idle waiters\<close>

text \<open>
  \<open>idle_struct\<close>: the registered waiters are the \<^verbatim>\<open>onIdle\<close> calls that are not done, each
  holds the closure that takes it off the set, and no other cleanup list holds that
  closure. \<open>idle_drained\<close>: an idle limiter has no registered waiter.
\<close>

definition idle_struct :: "state \<Rightarrow> bool" where
  "idle_struct s \<longleftrightarrow>
     (\<forall>w\<in>set (idleWaiters s). w < next_idle s \<and> \<not> i_done (idles s w) \<and>
        DeleteIdleWaiter w \<in> set (i_cleanups (idles s w))) \<and>
     (\<forall>w. w < next_idle s \<longrightarrow> \<not> i_done (idles s w) \<longrightarrow> w \<in> set (idleWaiters s)) \<and>
     (\<forall>w. i_done (idles s w) = (i_result (idles s w) \<noteq> None)) \<and>
     (\<forall>e w. DeleteIdleWaiter w \<notin> set (cleanup (entries s e))) \<and>
     (\<forall>v w. DeleteIdleWaiter w \<in> set (i_cleanups (idles s v)) \<longrightarrow> w = v)"

definition idle_drained :: "state \<Rightarrow> bool" where
  "idle_drained s \<longleftrightarrow> (active s = 0 \<and> queue s = [] \<longrightarrow> idleWaiters s = [])"

lemma idle_struct_other_fields [simp]:
  "idle_struct (s\<lparr>queue := q\<rparr>) = idle_struct s"
  "idle_struct (s\<lparr>active := n\<rparr>) = idle_struct s"
  "idle_struct (s\<lparr>runs := rs\<rparr>) = idle_struct s"
  "idle_struct (s\<lparr>next_run := k\<rparr>) = idle_struct s"
  "idle_struct (s\<lparr>listeners := ls\<rparr>) = idle_struct s"
  "idle_struct (s\<lparr>timers := ts\<rparr>) = idle_struct s"
  "idle_struct (s\<lparr>aborted := ab\<rparr>) = idle_struct s"
  unfolding idle_struct_def by simp_all

lemma idle_struct_transfer:
  assumes "idle_struct s" and "idleWaiters s' = idleWaiters s" and "idles s' = idles s"
    and "next_idle s' = next_idle s"
    and "\<And>e w. DeleteIdleWaiter w \<notin> set (cleanup (entries s' e))"
  shows "idle_struct s'"
  unfolding idle_struct_def assms(2,3,4)
  using assms(1,5) unfolding idle_struct_def by blast

lemma idle_struct_no_delete:
  "idle_struct s \<Longrightarrow> DeleteIdleWaiter w \<notin> set (cleanup (entries s e))"
  unfolding idle_struct_def by blast

lemma idleWaiters_entry_remove:
  assumes "idle_struct s"
  shows "idleWaiters (entry_remove e s) = idleWaiters s"
proof -
  from assms have "\<And>w. DeleteIdleWaiter w \<notin> set (cleanup (entries s e))"
    unfolding idle_struct_def by blast
  then show ?thesis
    by (simp add: entry_remove_def Let_def fold_call_cleanup_collections)
qed

lemma idle_struct_entry_remove:
  assumes "idle_struct s"
  shows "idle_struct (entry_remove e s)"
proof (rule idle_struct_transfer [OF assms])
  show "idleWaiters (entry_remove e s) = idleWaiters s"
    by (rule idleWaiters_entry_remove [OF assms])
  show "idles (entry_remove e s) = idles s" by simp
  show "next_idle (entry_remove e s) = next_idle s" by simp
  show "DeleteIdleWaiter w \<notin> set (cleanup (entries (entry_remove e s) x))" for x w
    using idle_struct_no_delete [OF assms, of w x] by (simp add: entries_entry_remove)
qed

lemma idleWaiters_finish:
  assumes "idle_struct s"
  shows "set (idleWaiters (finish w err s)) = set (idleWaiters s) - {w}"
proof (cases "i_done (idles s w)")
  case True
  moreover from assms True have "w \<notin> set (idleWaiters s)"
    unfolding idle_struct_def by blast
  ultimately show ?thesis by (simp add: finish_def)
next
  case False
  from assms have b1: "\<And>v. v \<in> set (idleWaiters s) \<Longrightarrow>
      DeleteIdleWaiter v \<in> set (i_cleanups (idles s v))"
    and b6: "\<And>v. DeleteIdleWaiter v \<in> set (i_cleanups (idles s w)) \<Longrightarrow> v = w"
    unfolding idle_struct_def by blast+
  have "idleWaiters (finish w err s) =
      filter (\<lambda>v. DeleteIdleWaiter v \<notin> set (i_cleanups (idles s w))) (idleWaiters s)"
    using False by (simp add: finish_def Let_def fold_call_cleanup_collections)
  then show ?thesis using b1 b6 by auto
qed

lemma idle_struct_finish:
  assumes "idle_struct s"
  shows "idle_struct (finish w err s)"
proof -
  let ?s' = "finish w err s"
  note iw = idleWaiters_finish [OF assms, of w err]
  from assms have b1: "\<And>v. v \<in> set (idleWaiters s) \<Longrightarrow> v < next_idle s \<and>
        \<not> i_done (idles s v) \<and> DeleteIdleWaiter v \<in> set (i_cleanups (idles s v))"
    and b2: "\<And>v. v < next_idle s \<Longrightarrow> \<not> i_done (idles s v) \<Longrightarrow> v \<in> set (idleWaiters s)"
    and b3: "\<And>v. i_done (idles s v) = (i_result (idles s v) \<noteq> None)"
    and b5: "\<And>e v. DeleteIdleWaiter v \<notin> set (cleanup (entries s e))"
    and b6: "\<And>v u. DeleteIdleWaiter u \<in> set (i_cleanups (idles s v)) \<Longrightarrow> u = v"
    unfolding idle_struct_def by blast+
  have "v < next_idle ?s' \<and> \<not> i_done (idles ?s' v) \<and>
      DeleteIdleWaiter v \<in> set (i_cleanups (idles ?s' v))" if "v \<in> set (idleWaiters ?s')" for v
    using that b1 [of v] by (auto simp: iw idles_finish)
  moreover have "v \<in> set (idleWaiters ?s')" if "v < next_idle ?s'" "\<not> i_done (idles ?s' v)" for v
    using that b2 [of v] by (auto simp: iw idles_finish split: if_splits)
  moreover have "i_done (idles ?s' v) = (i_result (idles ?s' v) \<noteq> None)" for v
    using b3 [of v] by (auto simp: idles_finish)
  moreover have "DeleteIdleWaiter v \<notin> set (cleanup (entries ?s' e))" for e v
    using b5 by simp
  moreover have "u = v" if "DeleteIdleWaiter u \<in> set (i_cleanups (idles ?s' v))" for u v
    using that b6 [of u v] by (auto simp: idles_finish split: if_splits)
  ultimately show ?thesis unfolding idle_struct_def by blast
qed

lemma fold_finish_drains:
  "idle_struct s \<Longrightarrow> set (idleWaiters s) \<subseteq> set ws \<Longrightarrow>
     idle_struct (fold (\<lambda>w. finish w err) ws s) \<and>
     idleWaiters (fold (\<lambda>w. finish w err) ws s) = []"
proof (induction ws arbitrary: s)
  case Nil
  from Nil(2) have "idleWaiters s = []" by simp
  with Nil(1) show ?case by simp
next
  case (Cons w ws)
  have eq: "set (idleWaiters (finish w err s)) = set (idleWaiters s) - {w}"
    by (rule idleWaiters_finish [OF Cons.prems(1)])
  have sub: "set (idleWaiters (finish w err s)) \<subseteq> set ws"
    unfolding eq using Cons.prems(2) by auto
  have "fold (\<lambda>w. finish w err) (w # ws) s = fold (\<lambda>w. finish w err) ws (finish w err s)"
    by simp
  with Cons.IH [OF idle_struct_finish [OF Cons.prems(1)] sub] show ?case
    by (simp only:)
qed

lemma idle_struct_fold_finish:
  "idle_struct s \<Longrightarrow> idle_struct (fold (\<lambda>w. finish w err) ws s)"
  by (induction ws arbitrary: s) (simp_all add: idle_struct_finish)

lemma idle_emitIdleIfNeeded:
  assumes "idle_struct s"
  shows "idle_struct (emitIdleIfNeeded s) \<and> idle_drained (emitIdleIfNeeded s)"
proof (cases "active s = 0 \<and> queue s = []")
  case True
  then show ?thesis
    using fold_finish_drains [OF assms, of "idleWaiters s" None]
    by (simp add: emitIdleIfNeeded_def idle_drained_def)
next
  case False
  then show ?thesis
    using assms by (auto simp: emitIdleIfNeeded_def idle_drained_def)
qed

lemma idle_struct_defer_resolve:
  assumes "idle_struct s"
  shows "idle_struct (snd (defer_resolve e s))"
proof (rule idle_struct_transfer [OF assms])
  show "DeleteIdleWaiter w \<notin> set (cleanup (entries (snd (defer_resolve e s)) x))" for x w
    using idle_struct_no_delete [OF assms, of w x] by (auto simp: defer_resolve_def)
qed simp_all

lemma idle_struct_defer_reject:
  assumes "idle_struct s"
  shows "idle_struct (snd (defer_reject e err s))"
proof (rule idle_struct_transfer [OF assms])
  show "DeleteIdleWaiter w \<notin> set (cleanup (entries (snd (defer_reject e err s)) x))" for x w
    using idle_struct_no_delete [OF assms, of w x] by (auto simp: defer_reject_def)
qed simp_all

lemma idle_drained_defer_reject:
  "idle_drained s \<Longrightarrow> idle_drained (snd (defer_reject e err s))"
  by (simp add: idle_drained_def)

lemma idle_removeFromQueue:
  assumes "idle_struct s" and "idle_drained s"
  shows "idle_struct (removeFromQueue e s) \<and> idle_drained (removeFromQueue e s)"
proof (cases "removed (entries s e)")
  case True
  then show ?thesis using assms by (simp add: removeFromQueue_def)
next
  case False
  have "idle_struct ((entry_remove e s)\<lparr>queue := remove1 e (queue (entry_remove e s))\<rparr>)"
    using idle_struct_entry_remove [OF assms(1)] by simp
  from idle_emitIdleIfNeeded [OF this] False show ?thesis
    by (simp add: removeFromQueue_def Let_def)
qed

lemma idle_finish:
  assumes "idle_struct s" and "idle_drained s"
  shows "idle_struct (finish w err s) \<and> idle_drained (finish w err s)"
proof -
  have st: "idle_struct (finish w err s)"
    by (rule idle_struct_finish [OF assms(1)])
  have eq: "set (idleWaiters (finish w err s)) = set (idleWaiters s) - {w}"
    by (rule idleWaiters_finish [OF assms(1)])
  have "idle_drained (finish w err s)"
    unfolding idle_drained_def
  proof (intro impI)
    assume "active (finish w err s) = 0 \<and> queue (finish w err s) = []"
    then have "active s = 0 \<and> queue s = []" by simp
    with assms(2) have "idleWaiters s = []" unfolding idle_drained_def by simp
    then have "set (idleWaiters (finish w err s)) = {}" unfolding eq by simp
    then show "idleWaiters (finish w err s) = []" by simp
  qed
  with st show ?thesis by simp
qed

lemma idle_call_listener:
  assumes "idle_struct s" and "idle_drained s"
  shows "idle_struct (call_listener l s) \<and> idle_drained (call_listener l s)"
proof (cases l)
  case (EntryAbort e)
  then show ?thesis
    using idle_removeFromQueue [OF assms, of e]
    by (simp add: idle_struct_defer_reject idle_drained_defer_reject)
next
  case (IdleAbort w)
  then show ?thesis using idle_finish [OF assms] by simp
qed

lemma idle_call_timer:
  assumes "idle_struct s" and "idle_drained s"
  shows "idle_struct (call_timer t s) \<and> idle_drained (call_timer t s)"
proof (cases t)
  case (EntryTimer e)
  then show ?thesis
    using idle_removeFromQueue [OF assms, of e]
    by (simp add: idle_struct_defer_reject idle_drained_defer_reject)
next
  case (IdleTimer w)
  then show ?thesis using idle_finish [OF assms] by simp
qed

lemma idle_drained_other_fields [simp]:
  "idle_drained (s\<lparr>runs := rs\<rparr>) = idle_drained s"
  "idle_drained (s\<lparr>listeners := ls\<rparr>) = idle_drained s"
  "idle_drained (s\<lparr>timers := ts\<rparr>) = idle_drained s"
  "idle_drained (s\<lparr>aborted := ab\<rparr>) = idle_drained s"
  by (simp_all add: idle_drained_def)

lemma idle_dispatch:
  assumes "idle_struct s" and "idle_drained s"
  shows "idle_struct (dispatch sg ls s) \<and> idle_drained (dispatch sg ls s)"
  using assms
proof (induction ls arbitrary: s)
  case Nil
  then show ?case by simp
next
  case (Cons l ls)
  show ?case
  proof (cases "l \<in> set (listeners s sg)")
    case True
    let ?s0 = "s\<lparr>listeners := (listeners s)(sg := removeAll l (listeners s sg))\<rparr>"
    have "idle_struct ?s0" "idle_drained ?s0" using Cons.prems by simp_all
    from idle_call_listener [OF this, of l]
    have "idle_struct (call_listener l ?s0)" "idle_drained (call_listener l ?s0)" by simp_all
    from Cons.IH [OF this] True show ?thesis by simp
  next
    case False
    then show ?thesis using Cons.IH [OF Cons.prems] by simp
  qed
qed

lemma idle_struct_release: "idle_struct s \<Longrightarrow> idle_struct (release s)"
  by (rule release_preserves [of idle_struct])
    (simp_all add: idle_struct_entry_remove idle_struct_defer_resolve idle_emitIdleIfNeeded)

lemma idle_struct_waitForTurn:
  assumes "idle_struct s"
  shows "idle_struct (snd (waitForTurn signal qt s))"
proof (cases "is_aborted signal s")
  case True
  then show ?thesis using assms by (simp add: waitForTurn_def)
next
  case False
  note f = waitForTurn_fields [OF False, of qt]
  show ?thesis
  proof (rule idle_struct_transfer [OF assms])
    show "DeleteIdleWaiter w \<notin> set (cleanup (entries (snd (waitForTurn signal qt s)) x))"
      for x w
      using idle_struct_no_delete [OF assms, of w x]
      by (auto simp: f entry_closures_def split: option.splits)
  qed (simp_all add: f)
qed

lemma idle_struct_acquire:
  assumes "idle_struct s"
  shows "idle_struct (snd (acquire signal qt s))"
proof (cases "\<not> is_aborted signal s \<and> \<not> js_lt (Fin (of_int (active s))) (limit s) \<and>
    \<not> js_le (maxQueue s) (Fin (of_nat (length (queue s))))")
  case True
  then have "acquire signal qt s = waitForTurn signal qt s" by (simp add: acquire_def)
  then show ?thesis using idle_struct_waitForTurn [OF assms] by simp
next
  case False
  then show ?thesis using assms by (auto simp: acquire_def Let_def)
qed

lemma idle_struct_run:
  assumes "idle_struct s"
  shows "idle_struct (snd (run options s))"
proof -
  have "snd (run options s) = s \<or> (\<exists>signal qt. snd (run options s) = snd (acquire signal qt s))"
    by (auto simp: run_def Let_def split: option.splits)
  then show ?thesis using assms idle_struct_acquire [OF assms] by auto
qed

lemma idle_struct_registered_idle:
  assumes "idle_struct s"
  shows "idle_struct (registered_idle options s)"
proof -
  let ?n = "next_idle s"
  let ?s' = "registered_idle options s"
  from assms have b1: "\<And>v. v \<in> set (idleWaiters s) \<Longrightarrow> v < next_idle s \<and>
        \<not> i_done (idles s v) \<and> DeleteIdleWaiter v \<in> set (i_cleanups (idles s v))"
    and b2: "\<And>v. v < next_idle s \<Longrightarrow> \<not> i_done (idles s v) \<Longrightarrow> v \<in> set (idleWaiters s)"
    and b3: "\<And>v. i_done (idles s v) = (i_result (idles s v) \<noteq> None)"
    and b5: "\<And>e v. DeleteIdleWaiter v \<notin> set (cleanup (entries s e))"
    and b6: "\<And>v u. DeleteIdleWaiter u \<in> set (i_cleanups (idles s v)) \<Longrightarrow> u = v"
    unfolding idle_struct_def by blast+
  have f: "idleWaiters ?s' = idleWaiters s @ [?n]" "next_idle ?s' = Suc ?n"
    "idles ?s' = (idles s)(?n := \<lparr>i_done = False,
       i_cleanups = idle_closures ?n (io_signal options) (io_timeoutMs options),
       i_result = None\<rparr>)"
    by (simp_all add: registered_idle_def)
  have "v < next_idle ?s' \<and> \<not> i_done (idles ?s' v) \<and>
      DeleteIdleWaiter v \<in> set (i_cleanups (idles ?s' v))" if "v \<in> set (idleWaiters ?s')" for v
    using that b1 [of v] by (auto simp: f idle_closures_def)
  moreover have "v \<in> set (idleWaiters ?s')" if "v < next_idle ?s'" "\<not> i_done (idles ?s' v)" for v
    using that b2 [of v] by (auto simp: f less_Suc_eq split: if_splits)
  moreover have "i_done (idles ?s' v) = (i_result (idles ?s' v) \<noteq> None)" for v
    using b3 [of v] by (simp add: f)
  moreover have "DeleteIdleWaiter v \<notin> set (cleanup (entries ?s' e))" for e v
    using b5 by simp
  moreover have "u = v" if "DeleteIdleWaiter u \<in> set (i_cleanups (idles ?s' v))" for u v
    using that b6 [of u v] by (auto simp: f idle_closures_def split: if_splits option.splits)
  ultimately show ?thesis unfolding idle_struct_def by blast
qed


definition idle_inv :: "state \<Rightarrow> bool" where
  "idle_inv s \<longleftrightarrow> idle_struct s \<and> idle_drained s"

lemma run_outcomes:
  "snd (run options s) = s \<or> active (snd (run options s)) = active s + 1 \<or>
   queue (snd (run options s)) \<noteq> []"
proof -
  let ?sg = "nullish (ro_signal options) (defaultSignal s)"
  let ?qt = "nullish (ro_queueTimeoutMs options) (defaultQueueTimeoutMs s)"
  show ?thesis
  proof (cases "assertValidTimeoutMs ?qt = None \<and> \<not> is_aborted ?sg s")
    case False
    then have "snd (run options s) = s"
      by (auto simp: run_def Let_def split: option.splits)
    then show ?thesis by simp
  next
    case True
    then have r: "run options s = acquire ?sg ?qt s"
      by (simp add: run_def Let_def)
    show ?thesis
    proof (cases "js_lt (Fin (of_int (active s))) (limit s)")
      case lt: True
      then show ?thesis using True by (simp add: r acquire_def Let_def)
    next
      case ge: False
      show ?thesis
      proof (cases "js_le (maxQueue s) (Fin (of_nat (length (queue s))))")
        case True
        then show ?thesis using ge \<open>assertValidTimeoutMs ?qt = None \<and> \<not> is_aborted ?sg s\<close>
          by (simp add: r acquire_def)
      next
        case False
        then have "run options s = waitForTurn ?sg ?qt s"
          using ge True by (simp add: r acquire_def)
        then show ?thesis using True by (simp add: waitForTurn_fields)
      qed
    qed
  qed
qed

lemma idle_inv_run:
  assumes g: "limiter_inv s" and i: "idle_inv s"
  shows "idle_inv (snd (run options s))"
proof -
  from i have st: "idle_struct s" and dr: "idle_drained s" unfolding idle_inv_def by simp_all
  have st': "idle_struct (snd (run options s))" by (rule idle_struct_run [OF st])
  from g have nn: "0 \<le> active s" unfolding limiter_inv_def inv_count_def by simp
  from run_outcomes [of options s] have "idle_drained (snd (run options s))"
  proof (elim disjE)
    assume "snd (run options s) = s"
    then show ?thesis using dr by simp
  next
    assume "active (snd (run options s)) = active s + 1"
    then have "active (snd (run options s)) \<noteq> 0" using nn by simp
    then show ?thesis unfolding idle_drained_def by simp
  next
    assume "queue (snd (run options s)) \<noteq> []"
    then show ?thesis unfolding idle_drained_def by simp
  qed
  with st' show ?thesis unfolding idle_inv_def by simp
qed

lemma idle_inv_run_finally:
  assumes g: "limiter_inv s" and i: "idle_inv s" and r: "runs s r = Some Running"
  shows "idle_inv (run_finally r res s)"
proof -
  from i have st: "idle_struct s" unfolding idle_inv_def by simp
  from g have c: "inv_count s" and sv: "struct_inv s" unfolding limiter_inv_def by simp_all
  from sv have al: "inv_alloc s" and iq: "inv_queue s" and fl: "inv_flags s"
    unfolding struct_inv_def by simp_all
  show ?thesis
  proof (cases "queue s")
    case Nil
    have rel: "release s = emitIdleIfNeeded (s\<lparr>queue := [], active := active s - 1\<rparr>)"
      by (rule release_Nil [OF Nil])
    have "idle_struct (s\<lparr>queue := [], active := active s - 1\<rparr>)" using st by simp
    from idle_emitIdleIfNeeded [OF this]
    have "idle_struct (release s)" "idle_drained (release s)" unfolding rel by simp_all
    then show ?thesis unfolding idle_inv_def run_finally_eq by simp
  next
    case (Cons e q)
    from iq Cons have ne: "\<not> removed (entries s e)" unfolding inv_queue_def by simp
    with fl have ns: "\<not> settled (entries s e)" unfolding inv_flags_def by simp
    have fin: "finite (running s)" by (rule running_finite [OF al])
    have "r \<in> running s" using r by (simp add: running_def)
    with fin have "card (running s) \<noteq> 0" by auto
    with c have "active s \<noteq> 0" unfolding inv_count_def by simp
    then have "active (release s) \<noteq> 0" using handoff_active [OF Cons ne ns] by simp
    then have "idle_drained (release s)" unfolding idle_drained_def by simp
    with idle_struct_release [OF st] show ?thesis unfolding idle_inv_def run_finally_eq by simp
  qed
qed

lemma idle_inv_abort:
  assumes "idle_inv s"
  shows "idle_inv (abort sg s)"
proof (cases "aborted s sg")
  case True
  then show ?thesis using assms by (simp add: abort_def)
next
  case False
  let ?s1 = "s\<lparr>aborted := (aborted s)(sg := True)\<rparr>"
  have "idle_struct ?s1" "idle_drained ?s1" using assms unfolding idle_inv_def by simp_all
  from idle_dispatch [OF this] False show ?thesis
    unfolding idle_inv_def by (simp add: abort_def Let_def)
qed

lemma idle_inv_timer:
  assumes "idle_inv s"
  shows "idle_inv (fire (TimerFires t) s)"
proof (cases "t \<in> set (timers s)")
  case False
  then show ?thesis using assms by simp
next
  case True
  let ?s0 = "s\<lparr>timers := removeAll t (timers s)\<rparr>"
  have "idle_struct ?s0" "idle_drained ?s0" using assms unfolding idle_inv_def by simp_all
  from idle_call_timer [OF this] True show ?thesis unfolding idle_inv_def by simp
qed

lemma idle_inv_onIdle:
  assumes "idle_inv s"
  shows "idle_inv (snd (onIdle options s))"
proof -
  from assms have "idle_struct s" unfolding idle_inv_def by simp
  from idle_emitIdleIfNeeded [OF idle_struct_registered_idle [OF this]]
  have "idle_inv (emitIdleIfNeeded (registered_idle options s))"
    unfolding idle_inv_def .
  with onIdle_cases [of options s] assms show ?thesis by auto
qed

lemma idle_inv_fire:
  assumes "limiter_inv s" and "idle_inv s"
  shows "idle_inv (fire ev s)"
proof (cases ev)
  case (Run options)
  then show ?thesis using idle_inv_run [OF assms] by simp
next
  case (TaskDone r res)
  then show ?thesis using idle_inv_run_finally [OF assms] assms(2) by simp
next
  case (Abort sg)
  then show ?thesis using idle_inv_abort [OF assms(2)] by simp
next
  case (TimerFires t)
  then show ?thesis using idle_inv_timer [OF assms(2)] by simp
next
  case (OnIdle options)
  then show ?thesis using idle_inv_onIdle [OF assms(2)] by simp
qed

lemma idle_inv_init:
  assumes "Limiter lmt options = Inr s"
  shows "idle_inv s"
proof -
  from assms have s: "entries s = (\<lambda>_. empty_entry)" "idleWaiters s = []"
    "idles s = (\<lambda>_. empty_idle)" "next_idle s = 0"
    by (auto simp: Limiter_def Let_def split: option.splits)
  show ?thesis
    unfolding idle_inv_def idle_struct_def idle_drained_def
    by (simp add: s empty_entry_def empty_idle_def)
qed

lemma reachable_idle_inv: "reachable s \<Longrightarrow> idle_inv s"
proof (induction rule: reachable.induct)
  case (init lmt options s)
  then show ?case by (rule idle_inv_init)
next
  case (step s ev)
  from idle_inv_fire [OF reachable_limiter_inv [OF step.hyps] step.IH] show ?case .
qed

text \<open>A waiter is resolved only by an idle check that finds the limiter idle.\<close>

definition resolved :: "state \<Rightarrow> wid \<Rightarrow> bool" where
  "resolved s w \<longleftrightarrow> i_result (idles s w) = Some (Inr ())"

definition is_idle :: "state \<Rightarrow> bool" where
  "is_idle s \<longleftrightarrow> active s = 0 \<and> queue s = []"

lemma resolved_finish_err:
  "resolved (finish v (Some e) s) w \<Longrightarrow> resolved s w"
  by (auto simp: resolved_def idles_finish split: if_splits)

lemma resolved_emitIdleIfNeeded:
  "resolved (emitIdleIfNeeded s) w \<Longrightarrow> resolved s w \<or> is_idle (emitIdleIfNeeded s)"
  by (cases "active s = 0 \<and> queue s = []") (auto simp: is_idle_def emitIdleIfNeeded_def)

lemma resolved_removeFromQueue:
  "resolved (removeFromQueue e s) w \<Longrightarrow> resolved s w \<or> is_idle (removeFromQueue e s)"
proof (cases "removed (entries s e)")
  case True
  then show "resolved (removeFromQueue e s) w \<Longrightarrow> ?thesis" by (simp add: removeFromQueue_def)
next
  case False
  let ?m = "(entry_remove e s)\<lparr>queue := remove1 e (queue (entry_remove e s))\<rparr>"
  have eq: "removeFromQueue e s = emitIdleIfNeeded ?m"
    using False by (simp add: removeFromQueue_def Let_def)
  have "resolved ?m w = resolved s w" by (simp add: resolved_def)
  then show "resolved (removeFromQueue e s) w \<Longrightarrow> ?thesis"
    unfolding eq using resolved_emitIdleIfNeeded [of ?m w] by blast
qed

lemma is_idle_defer_reject [simp]: "is_idle (snd (defer_reject e err s)) = is_idle s"
  by (simp add: is_idle_def)

lemma resolved_defer_reject [simp]: "resolved (snd (defer_reject e err s)) w = resolved s w"
  by (simp add: resolved_def)

lemma resolved_call_listener:
  "resolved (call_listener l s) w \<Longrightarrow> resolved s w \<or> is_idle (call_listener l s)"
  by (cases l) (auto dest: resolved_removeFromQueue resolved_finish_err)

lemma resolved_call_timer:
  "resolved (call_timer t s) w \<Longrightarrow> resolved s w \<or> is_idle (call_timer t s)"
  by (cases t) (auto dest: resolved_removeFromQueue resolved_finish_err)

lemma is_idle_removeFromQueue: "is_idle s \<Longrightarrow> is_idle (removeFromQueue e s)"
  by (simp add: is_idle_def queue_removeFromQueue)

lemma is_idle_call_listener: "is_idle s \<Longrightarrow> is_idle (call_listener l s)"
  by (cases l) (simp_all add: is_idle_removeFromQueue, simp add: is_idle_def)

lemma is_idle_dispatch: "is_idle s \<Longrightarrow> is_idle (dispatch sg ls s)"
proof (induction ls arbitrary: s)
  case Nil
  then show ?case by simp
next
  case (Cons l ls)
  show ?case
  proof (cases "l \<in> set (listeners s sg)")
    case True
    let ?s0 = "s\<lparr>listeners := (listeners s)(sg := removeAll l (listeners s sg))\<rparr>"
    have "is_idle ?s0" using Cons.prems by (simp add: is_idle_def)
    from Cons.IH [OF is_idle_call_listener [OF this]] True show ?thesis by simp
  next
    case False
    then show ?thesis using Cons.IH [OF Cons.prems] by simp
  qed
qed

lemma resolved_dispatch:
  "resolved (dispatch sg ls s) w \<Longrightarrow> resolved s w \<or> is_idle (dispatch sg ls s)"
proof (induction ls arbitrary: s)
  case Nil
  then show ?case by simp
next
  case (Cons l ls)
  show ?case
  proof (cases "l \<in> set (listeners s sg)")
    case True
    let ?s0 = "s\<lparr>listeners := (listeners s)(sg := removeAll l (listeners s sg))\<rparr>"
    let ?s1 = "call_listener l ?s0"
    have d: "dispatch sg (l # ls) s = dispatch sg ls ?s1" using True by simp
    from Cons.prems have "resolved (dispatch sg ls ?s1) w" unfolding d .
    from Cons.IH [OF this] show ?thesis
    proof
      assume "resolved ?s1 w"
      from resolved_call_listener [OF this] show ?thesis
      proof
        assume "resolved ?s0 w"
        then show ?thesis by (simp add: resolved_def)
      next
        assume "is_idle ?s1"
        from is_idle_dispatch [OF this] show ?thesis unfolding d by simp
      qed
    next
      assume "is_idle (dispatch sg ls ?s1)"
      then show ?thesis unfolding d by simp
    qed
  next
    case False
    then show ?thesis using Cons.IH [of s] Cons.prems by simp
  qed
qed

lemma idles_run [simp]: "idles (snd (run options s)) = idles s"
proof -
  have "idles (snd (waitForTurn signal qt s)) = idles s" for signal qt
    by (cases "is_aborted signal s") (simp_all add: waitForTurn_fields, simp add: waitForTurn_def)
  then show ?thesis
    by (simp add: run_def acquire_def Let_def split: option.splits)
qed

lemma resolved_fire:
  assumes g: "limiter_inv s" and a: "resolved (fire ev s) w"
  shows "resolved s w \<or> is_idle (fire ev s)"
proof (cases ev)
  case (Run options)
  with a show ?thesis by (simp add: resolved_def)
next
  case (TaskDone r res)
  show ?thesis
  proof (cases "runs s r = Some Running")
    case False
    with a TaskDone show ?thesis by simp
  next
    case True
    from g have sv: "struct_inv s" unfolding limiter_inv_def by simp
    then have iq: "inv_queue s" and fl: "inv_flags s" unfolding struct_inv_def by simp_all
    have fe: "fire ev s = (release s)\<lparr>runs := (runs (release s))(r \<mapsto> Finished res)\<rparr>"
      using True TaskDone by (simp add: run_finally_eq)
    from a have ar: "resolved (release s) w" unfolding fe by (simp add: resolved_def)
    show ?thesis
    proof (cases "queue s")
      case Nil
      let ?m = "s\<lparr>queue := [], active := active s - 1\<rparr>"
      have rel: "release s = emitIdleIfNeeded ?m" by (rule release_Nil [OF Nil])
      from ar resolved_emitIdleIfNeeded [of ?m w]
      have "resolved ?m w \<or> is_idle (release s)" unfolding rel by blast
      then show ?thesis unfolding fe by (auto simp: resolved_def is_idle_def)
    next
      case (Cons e q)
      from iq Cons have ne: "\<not> removed (entries s e)" unfolding inv_queue_def by simp
      with fl have ns: "\<not> settled (entries s e)" unfolding inv_flags_def by simp
      have "idles (release s) = idles s"
        by (simp add: release_Cons [OF Cons ne ns])
      with ar show ?thesis by (simp add: resolved_def)
    qed
  qed
next
  case (Abort sg)
  show ?thesis
  proof (cases "aborted s sg")
    case True
    with a Abort show ?thesis by (simp add: abort_def)
  next
    case False
    let ?s1 = "s\<lparr>aborted := (aborted s)(sg := True)\<rparr>"
    have fe: "fire ev s = dispatch sg (listeners ?s1 sg) ?s1"
      using False Abort by (simp add: abort_def Let_def)
    from a resolved_dispatch [of sg "listeners ?s1 sg" ?s1 w]
    have "resolved ?s1 w \<or> is_idle (fire ev s)" unfolding fe by blast
    then show ?thesis by (auto simp: resolved_def)
  qed
next
  case (TimerFires t)
  show ?thesis
  proof (cases "t \<in> set (timers s)")
    case False
    with a TimerFires show ?thesis by simp
  next
    case True
    let ?s0 = "s\<lparr>timers := removeAll t (timers s)\<rparr>"
    have fe: "fire ev s = call_timer t ?s0" using True TimerFires by simp
    from a resolved_call_timer [of t ?s0 w]
    have "resolved ?s0 w \<or> is_idle (fire ev s)" unfolding fe by blast
    then show ?thesis by (auto simp: resolved_def)
  qed
next
  case (OnIdle options)
  from onIdle_cases [of options s] show ?thesis
  proof
    assume "snd (onIdle options s) = s"
    with a OnIdle show ?thesis by simp
  next
    let ?m = "registered_idle options s"
    assume eq: "snd (onIdle options s) = emitIdleIfNeeded ?m"
    then have fe: "fire ev s = emitIdleIfNeeded ?m" using OnIdle by simp
    from a resolved_emitIdleIfNeeded [of ?m w]
    have "resolved ?m w \<or> is_idle (fire ev s)" unfolding fe by blast
    moreover have "resolved ?m w \<Longrightarrow> resolved s w"
      by (auto simp: resolved_def registered_idle_def split: if_splits)
    ultimately show ?thesis by blast
  qed
qed

lemma onIdle_immediate:
  assumes "assertValidTimeoutMs (io_timeoutMs options) = None"
    and "\<not> is_aborted (io_signal options) s"
    and "active s = 0 \<and> queue s = []"
  shows "onIdle options s = (Inr None, s)"
  using assms by (simp add: onIdle_def)

lemma registered_idle_pending:
  "i_result (idles (emitIdleIfNeeded (registered_idle options s)) (next_idle s)) = None"
  if "\<not> (active s = 0 \<and> queue s = [])"
proof -
  have "emitIdleIfNeeded (registered_idle options s) = registered_idle options s"
    using that by (auto simp: emitIdleIfNeeded_def)
  then show ?thesis by (simp add: registered_idle_def)
qed

lemma run_queue:
  "queue (snd (run options s)) = queue s \<or>
   queue (snd (run options s)) = queue s @ [next_run s]"
proof -
  have w: "queue (snd (waitForTurn signal qt s)) = queue s \<or>
      queue (snd (waitForTurn signal qt s)) = queue s @ [next_run s]" for signal qt
    by (cases "is_aborted signal s") (simp_all add: waitForTurn_fields, simp add: waitForTurn_def)
  have a: "queue (snd (acquire signal qt s)) = queue s \<or>
      queue (snd (acquire signal qt s)) = queue s @ [next_run s]" for signal qt
    using w [of signal qt] by (simp add: acquire_def Let_def)
  have "snd (run options s) = s \<or> (\<exists>signal qt. snd (run options s) = snd (acquire signal qt s))"
    by (auto simp: run_def Let_def split: option.splits)
  then show ?thesis
  proof
    assume "snd (run options s) = s"
    then show ?thesis by simp
  next
    assume "\<exists>signal qt. snd (run options s) = snd (acquire signal qt s)"
    then obtain signal qt where "snd (run options s) = snd (acquire signal qt s)" by blast
    with a [of signal qt] show ?thesis by simp
  qed
qed

section \<open>A queued call means a running task\<close>

text \<open>While a call is queued, a task runs: a call is queued only when \<open>active\<close> has
  reached the limit, and the slot of a completed task goes to the head of the queue.\<close>

definition inv_busy :: "state \<Rightarrow> bool" where
  "inv_busy s \<longleftrightarrow> (queue s \<noteq> [] \<longrightarrow> 0 < active s)"

lemma inv_busy_run:
  assumes l: "inv_limit s" and nn: "0 \<le> active s" and b: "inv_busy s"
  shows "inv_busy (snd (run options s))"
proof -
  let ?sg = "nullish (ro_signal options) (defaultSignal s)"
  let ?qt = "nullish (ro_queueTimeoutMs options) (defaultQueueTimeoutMs s)"
  show ?thesis
  proof (cases "assertValidTimeoutMs ?qt = None \<and> \<not> is_aborted ?sg s")
    case False
    then have "snd (run options s) = s"
      by (auto simp: run_def Let_def split: option.splits)
    then show ?thesis using b by simp
  next
    case True
    then have r: "run options s = acquire ?sg ?qt s"
      by (simp add: run_def Let_def)
    show ?thesis
    proof (cases "js_lt (Fin (of_int (active s))) (limit s)")
      case lt: True
      then have "active (snd (run options s)) = active s + 1"
        using True by (simp add: r acquire_active)
      then show ?thesis using nn unfolding inv_busy_def by simp
    next
      case ge: False
      from l obtain L where L: "limit s = Fin L" "0 < L" unfolding inv_limit_def by blast
      from ge have "L \<le> of_int (active s)" by (simp add: L)
      with L(2) have "(0 :: rat) < of_int (active s)" by simp
      then have "0 < active s" by (simp only: of_int_0_less_iff)
      moreover have "active (snd (run options s)) = active s"
        using ge by (simp add: r acquire_active)
      ultimately show ?thesis unfolding inv_busy_def by simp
    qed
  qed
qed

lemma inv_busy_run_finally:
  assumes g: "limiter_inv s" and b: "inv_busy s"
  shows "inv_busy (run_finally r res s)"
proof (cases "queue s")
  case Nil
  have "queue (release s) = []" by (simp add: release_Nil [OF Nil])
  then show ?thesis unfolding inv_busy_def run_finally_eq by simp
next
  case (Cons e q)
  from g have sv: "struct_inv s" unfolding limiter_inv_def by simp
  then have iq: "inv_queue s" and fl: "inv_flags s" unfolding struct_inv_def by simp_all
  from iq Cons have ne: "\<not> removed (entries s e)" unfolding inv_queue_def by simp
  with fl have ns: "\<not> settled (entries s e)" unfolding inv_flags_def by simp
  from b Cons have "0 < active s" unfolding inv_busy_def by simp
  then have "0 < active (release s)" using handoff_active [OF Cons ne ns] by simp
  then show ?thesis unfolding inv_busy_def run_finally_eq by simp
qed

lemma queue_Nil_call_listener: "queue s = [] \<Longrightarrow> queue (call_listener l s) = []"
  by (cases l) (simp_all add: queue_removeFromQueue)

lemma queue_Nil_call_timer: "queue s = [] \<Longrightarrow> queue (call_timer t s) = []"
  by (cases t) (simp_all add: queue_removeFromQueue)

lemma queue_Nil_dispatch: "queue s = [] \<Longrightarrow> queue (dispatch sg ls s) = []"
proof (induction ls arbitrary: s)
  case Nil
  then show ?case by simp
next
  case (Cons l ls)
  show ?case
  proof (cases "l \<in> set (listeners s sg)")
    case True
    let ?s0 = "s\<lparr>listeners := (listeners s)(sg := removeAll l (listeners s sg))\<rparr>"
    have "queue ?s0 = []" using Cons.prems by simp
    from Cons.IH [OF queue_Nil_call_listener [OF this]] True show ?thesis by simp
  next
    case False
    then show ?thesis using Cons.IH [OF Cons.prems] by simp
  qed
qed

lemma inv_busy_abort:
  assumes "inv_busy s"
  shows "inv_busy (abort sg s)"
proof (cases "aborted s sg")
  case True
  then show ?thesis using assms by (simp add: abort_def)
next
  case False
  let ?s1 = "s\<lparr>aborted := (aborted s)(sg := True)\<rparr>"
  have eq: "abort sg s = dispatch sg (listeners ?s1 sg) ?s1"
    using False by (simp add: abort_def Let_def)
  show ?thesis
  proof (cases "queue s = []")
    case True
    then have "queue ?s1 = []" by simp
    from queue_Nil_dispatch [OF this] show ?thesis unfolding inv_busy_def eq by simp
  next
    case False
    with assms have "0 < active s" unfolding inv_busy_def by simp
    then show ?thesis unfolding inv_busy_def by simp
  qed
qed

lemma inv_busy_timer:
  assumes "inv_busy s"
  shows "inv_busy (fire (TimerFires t) s)"
proof (cases "queue s = []")
  case True
  then have "queue (s\<lparr>timers := removeAll t (timers s)\<rparr>) = []" by simp
  from queue_Nil_call_timer [OF this] True show ?thesis unfolding inv_busy_def by simp
next
  case False
  with assms have "0 < active s" unfolding inv_busy_def by simp
  then show ?thesis unfolding inv_busy_def by simp
qed

lemma inv_busy_fire:
  assumes g: "limiter_inv s" and b: "inv_busy s"
  shows "inv_busy (fire ev s)"
proof (cases ev)
  case (Run options)
  from g have "inv_limit s" and "0 \<le> active s"
    unfolding limiter_inv_def inv_count_def by simp_all
  from inv_busy_run [OF this b] Run show ?thesis by simp
next
  case (TaskDone r res)
  then show ?thesis using inv_busy_run_finally [OF g b] b by simp
next
  case (Abort sg)
  then show ?thesis using inv_busy_abort [OF b] by simp
next
  case (TimerFires t)
  then show ?thesis using inv_busy_timer [OF b] by simp
next
  case (OnIdle options)
  then show ?thesis using b unfolding inv_busy_def by simp
qed

lemma reachable_inv_busy: "reachable s \<Longrightarrow> inv_busy s"
proof (induction rule: reachable.induct)
  case (init lmt options s)
  then have "queue s = []"
    by (auto simp: Limiter_def Let_def split: option.splits)
  then show ?case unfolding inv_busy_def by simp
next
  case (step s ev)
  from inv_busy_fire [OF reachable_limiter_inv [OF step.hyps] step.IH] show ?case .
qed

text \<open>An idle check that finds the limiter idle resolves every registered waiter, and a
  waiter that is done keeps its result.\<close>

lemma finish_keeps_done:
  "i_done (idles s w) \<Longrightarrow> idles (finish v err s) w = idles s w"
  by (auto simp: idles_finish)

lemma fold_finish_keeps_done:
  "i_done (idles s w) \<Longrightarrow> idles (fold (\<lambda>v. finish v err) ws s) w = idles s w"
proof (induction ws arbitrary: s)
  case Nil
  then show ?case by simp
next
  case (Cons v ws)
  from finish_keeps_done [OF Cons.prems, of v err]
  have eq: "idles (finish v err s) w = idles s w" .
  with Cons.prems have "i_done (idles (finish v err s) w)" by simp
  from Cons.IH [OF this] eq show ?case by simp
qed

lemma fold_finish_resolves:
  "w \<in> set ws \<Longrightarrow> \<not> i_done (idles s w) \<Longrightarrow>
     i_result (idles (fold (\<lambda>v. finish v None) ws s) w) = Some (Inr ())"
proof (induction ws arbitrary: s)
  case Nil
  then show ?case by simp
next
  case (Cons v ws)
  show ?case
  proof (cases "v = w")
    case True
    have r: "idles (finish w None s) w =
        \<lparr>i_done = True, i_cleanups = [], i_result = Some (Inr ())\<rparr>"
      using Cons.prems(2) by (simp add: idles_finish)
    then have "i_done (idles (finish w None s) w)" by simp
    from fold_finish_keeps_done [OF this, of None ws] r True show ?thesis by simp
  next
    case False
    with Cons.prems(1) have m: "w \<in> set ws" by simp
    have "\<not> i_done (idles (finish v None s) w)"
      using Cons.prems(2) False by (simp add: idles_finish)
    from Cons.IH [OF m this] show ?thesis by simp
  qed
qed

lemma idle_resolves_waiting:
  assumes r: "reachable s" and w: "w < next_idle s" and p: "i_result (idles s w) = None"
    and i: "is_idle (fire ev s)"
  shows "i_result (idles (fire ev s) w) = Some (Inr ())"
proof -
  from reachable_limiter_inv [OF r] have g: "limiter_inv s" .
  then have nn: "0 \<le> active s" unfolding limiter_inv_def inv_count_def by simp
  from reachable_idle_inv [OF r] have st: "idle_struct s" and dr: "idle_drained s"
    unfolding idle_inv_def by simp_all
  from st have b2: "\<And>v. v < next_idle s \<Longrightarrow> \<not> i_done (idles s v) \<Longrightarrow> v \<in> set (idleWaiters s)"
    and b3: "\<And>v. i_done (idles s v) = (i_result (idles s v) \<noteq> None)"
    unfolding idle_struct_def by blast+
  from b3 [of w] p have nd: "\<not> i_done (idles s w)" by simp
  from b2 [OF w nd] have m: "w \<in> set (idleWaiters s)" .
  then have "idleWaiters s \<noteq> []" by auto
  with dr have "\<not> (active s = 0 \<and> queue s = [])" unfolding idle_drained_def by blast
  with reachable_inv_busy [OF r] nn have pos: "0 < active s"
    unfolding inv_busy_def by (cases "queue s = []") simp_all
  show ?thesis
  proof (cases ev)
    case (Run options)
    from run_active [of options s] pos have "active (fire ev s) \<noteq> 0"
      unfolding Run by auto
    with i show ?thesis by (simp add: is_idle_def)
  next
    case (TaskDone x res)
    show ?thesis
    proof (cases "runs s x = Some Running")
      case False
      with i TaskDone pos show ?thesis by (simp add: is_idle_def)
    next
      case True
      from g have sv: "struct_inv s" unfolding limiter_inv_def by simp
      then have iq: "inv_queue s" and fl: "inv_flags s" unfolding struct_inv_def by simp_all
      have fe: "fire ev s = (release s)\<lparr>runs := (runs (release s))(x \<mapsto> Finished res)\<rparr>"
        using True TaskDone by (simp add: run_finally_eq)
      show ?thesis
      proof (cases "queue s")
        case Nil
        let ?m = "s\<lparr>queue := [], active := active s - 1\<rparr>"
        have rel: "release s = emitIdleIfNeeded ?m" by (rule release_Nil [OF Nil])
        from i have "active ?m = 0 \<and> queue ?m = []"
          unfolding fe rel by (simp add: is_idle_def)
        then have em: "emitIdleIfNeeded ?m = fold (\<lambda>v. finish v None) (idleWaiters ?m) ?m"
          by (simp add: emitIdleIfNeeded_def)
        have "w \<in> set (idleWaiters ?m)" using m by simp
        moreover have "\<not> i_done (idles ?m w)" using nd by simp
        ultimately have "i_result (idles (emitIdleIfNeeded ?m) w) = Some (Inr ())"
          unfolding em by (rule fold_finish_resolves)
        then show ?thesis unfolding fe rel by simp
      next
        case (Cons e q)
        from iq Cons have ne: "\<not> removed (entries s e)" unfolding inv_queue_def by simp
        with fl have ns: "\<not> settled (entries s e)" unfolding inv_flags_def by simp
        from handoff_active [OF Cons ne ns] pos have "active (fire ev s) \<noteq> 0"
          unfolding fe by simp
        with i show ?thesis by (simp add: is_idle_def)
      qed
    qed
  next
    case (Abort sg)
    with i pos show ?thesis by (simp add: is_idle_def)
  next
    case (TimerFires t)
    have "active (fire ev s) = active s" unfolding TimerFires by simp
    with i pos show ?thesis by (simp add: is_idle_def)
  next
    case (OnIdle options)
    with i pos show ?thesis by (simp add: is_idle_def)
  qed
qed

section \<open>The bound on the active count\<close>

text \<open>
  C1. The claim is that in every reachable state of a limiter \<open>0 \<le> active \<le> limit\<close>.
  The code breaks it on a limit that is not an integer: \<^verbatim>\<open>assertValidLimit\<close> tests
  only that the limit is finite and positive, so \<^verbatim>\<open>new Limiter(1.5)\<close> is
  constructed; the two calls of \<^verbatim>\<open>run\<close> that follow both find \<open>active < limit\<close>
  (\<open>0 < 1.5\<close>, then \<open>1 < 1.5\<close>) and are both admitted, and in the state reached
  \<open>active\<close> is \<open>2\<close>, above the limit \<open>1.5\<close>.
\<close>

theorem fractional_limit_exceeded:
  "reachable (fold fire [Run plain, Run plain] (limiter_of (3 / 2))) \<and>
   limit (fold fire [Run plain, Run plain] (limiter_of (3 / 2))) = Fin (3 / 2) \<and>
   active (fold fire [Run plain, Run plain] (limiter_of (3 / 2))) = 2 \<and>
   \<not> js_le (Fin (of_int (active (fold fire [Run plain, Run plain] (limiter_of (3 / 2))))))
        (limit (fold fire [Run plain, Run plain] (limiter_of (3 / 2))))"
proof -
  have "reachable (fold fire [Run plain, Run plain] (limiter_of (3 / 2)))"
    by (rule reachable_limiter_of) simp
  moreover have "limit (fold fire [Run plain, Run plain] (limiter_of (3 / 2))) = Fin (3 / 2)"
    by code_simp
  moreover have "active (fold fire [Run plain, Run plain] (limiter_of (3 / 2))) = 2"
    by code_simp
  moreover have "\<not> js_le (Fin (of_int (active (fold fire [Run plain, Run plain] (limiter_of (3 / 2))))))
        (limit (fold fire [Run plain, Run plain] (limiter_of (3 / 2))))"
    by code_simp
  ultimately show ?thesis by simp
qed

text \<open>
  The bound that the code does keep. In every reachable state \<open>active\<close> is not negative
  and lies below \<open>limit + 1\<close>, so on a limit that is an integer
  \<open>0 \<le> active \<le> limit\<close> holds. No event raises \<open>active\<close> by more than one, and only a
  call of \<^verbatim>\<open>run\<close> that finds \<open>active < limit\<close> raises it: the completion of a task,
  which hands the freed slot to a queued waiter, never does, and neither does an abort, a
  timer or \<^verbatim>\<open>onIdle\<close>.
\<close>

theorem active_within_limit:
  assumes "reachable s"
  shows "\<exists>L. limit s = Fin L \<and> 0 \<le> active s \<and> of_int (active s) < L + 1 \<and>
           (L \<in> \<int> \<longrightarrow> of_int (active s) \<le> L) \<and>
           (\<forall>ev. active (fire ev s) \<le> active s + 1 \<and>
              (active (fire ev s) = active s + 1 \<longrightarrow>
                 (\<exists>options. ev = Run options) \<and> js_lt (Fin (of_int (active s))) (limit s)))"
proof -
  from reachable_limiter_inv [OF assms] have "inv_limit s" and c: "inv_count s"
    unfolding limiter_inv_def by simp_all
  then obtain L where L: "limit s = Fin L" "of_int (active s) < L + 1"
    unfolding inv_limit_def by blast
  have nn: "0 \<le> active s" using c unfolding inv_count_def by simp
  have "of_int (active s) \<le> L" if "L \<in> \<int>"
  proof -
    from that obtain n :: int where n: "L = of_int n" by (rule Ints_cases)
    from L(2) have "of_int (active s) < (of_int (n + 1) :: rat)" by (simp add: n)
    then have "active s < n + 1" by (simp only: of_int_less_iff)
    then show ?thesis by (simp add: n)
  qed
  then show ?thesis using L nn fire_active by blast
qed

text \<open>An instance: \<^verbatim>\<open>new Limiter(2)\<close> after three calls of \<^verbatim>\<open>run\<close>.\<close>

theorem active_within_limit_witness:
  "reachable (fold fire [Run plain, Run plain, Run plain] (limiter_of 2)) \<and>
   limit (fold fire [Run plain, Run plain, Run plain] (limiter_of 2)) = Fin 2 \<and>
   active (fold fire [Run plain, Run plain, Run plain] (limiter_of 2)) = 2 \<and>
   pendingCount (fold fire [Run plain, Run plain, Run plain] (limiter_of 2)) = 1 \<and>
   of_int (active (fold fire [Run plain, Run plain, Run plain] (limiter_of 2))) \<le> (2 :: rat)"
proof -
  let ?s = "fold fire [Run plain, Run plain, Run plain] (limiter_of 2)"
  have r: "reachable ?s"
    by (rule reachable_limiter_of) simp
  have l: "limit ?s = Fin 2" by code_simp
  have a: "active ?s = 2" by code_simp
  have p: "pendingCount ?s = 1" by code_simp
  from active_within_limit [OF r] obtain L where
    "limit ?s = Fin L" and "L \<in> \<int> \<longrightarrow> of_int (active ?s) \<le> L"
    by blast
  with l have "of_int (active ?s) \<le> (2 :: rat)" by simp
  with r l a p show ?thesis by simp
qed

section \<open>First in, first out\<close>

text \<open>
  C2. Entries are numbered as they arrive, and a call of \<^verbatim>\<open>run\<close> leaves the queue as
  it is or appends the new entry at its tail, so the queue is in order of arrival.
  Whenever a waiting call is admitted, it is by the hand-off of a completed task, it is
  the head of the queue, and no call that arrived before it is still waiting: the earlier
  ones were admitted before, or were aborted or timed out.
\<close>

theorem fifo_admission:
  assumes "reachable s" and "runs s e = Some Waiting" and "runs (fire ev s) e = Some Running"
  shows "(\<exists>r res. ev = TaskDone r res) \<and>
         (\<exists>q. queue s = e # q \<and> queue (fire ev s) = q) \<and>
         sorted_wrt (<) (queue s) \<and>
         (\<forall>e'. e' < e \<longrightarrow> runs s e' \<noteq> Some Waiting) \<and>
         (\<forall>x\<in>set (queue s). x < next_run s) \<and>
         (\<forall>options. queue (fire (Run options) s) = queue s \<or>
                    queue (fire (Run options) s) = queue s @ [next_run s])"
proof -
  from reachable_limiter_inv [OF assms(1)] have st: "struct_inv s"
    unfolding limiter_inv_def by simp
  then have j: "inv_queue s" "inv_sorted s" "inv_waiting s" "inv_alloc s" "inv_flags s"
    unfolding struct_inv_def by simp_all
  have lt: "e < next_run s" using j(4) assms(2) unfolding inv_alloc_def by auto
  have ev: "\<exists>r res. ev = TaskDone r res \<and> runs s r = Some Running"
  proof (cases ev)
    case (Run options)
    with assms(2,3) run_runs_other [of e s options] lt show ?thesis by simp
  next
    case (TaskDone r res)
    with assms(2,3) show ?thesis by (cases "runs s r = Some Running") auto
  next
    case (Abort sg)
    with assms(2,3) abort_not_Running [of sg s e] show ?thesis by simp
  next
    case (TimerFires t)
    with assms(2,3)
      call_timer_not_Running [of t "s\<lparr>timers := removeAll t (timers s)\<rparr>" e]
    show ?thesis
      by (cases "t \<in> set (timers s)") auto
  next
    case (OnIdle options)
    with assms(2,3) show ?thesis by simp
  qed
  then obtain r res where ev: "ev = TaskDone r res" and r: "runs s r = Some Running" by blast
  have fe: "fire ev s = (release s)\<lparr>runs := (runs (release s))(r \<mapsto> Finished res)\<rparr>"
    using r by (simp add: ev run_finally_eq)
  have head: "\<exists>q. queue s = e # q \<and> queue (fire ev s) = q"
  proof (cases "queue s")
    case Nil
    have "runs (release s) = runs s"
      by (simp add: release_Nil [OF Nil])
    with assms(2,3) show ?thesis by (auto simp: fe split: if_splits)
  next
    case (Cons h q)
    from j(1) Cons have ne: "\<not> removed (entries s h)"
      unfolding inv_queue_def by simp
    with j(5) have ns: "\<not> settled (entries s h)"
      unfolding inv_flags_def by simp
    from handoff_leaves [OF Cons ne ns]
    have "runs (release s) = (runs s)(h \<mapsto> Running)" "queue (release s) = remove1 h (queue s)"
      unfolding leaves_def by simp_all
    with assms(2,3) Cons show ?thesis by (auto simp: fe split: if_splits)
  qed
  then obtain q where q: "queue s = e # q" by blast
  have "runs s e' \<noteq> Some Waiting" if "e' < e" for e'
  proof
    assume "runs s e' = Some Waiting"
    with j(3) have "e' \<in> set (queue s)" unfolding inv_waiting_def by simp
    with j(2) q that show False unfolding inv_sorted_def by auto
  qed
  moreover have "\<forall>x\<in>set (queue s). x < next_run s"
    using queue_below_next_run [OF st] by blast
  moreover have "\<forall>options. queue (fire (Run options) s) = queue s \<or>
      queue (fire (Run options) s) = queue s @ [next_run s]"
    using run_queue [of _ s] by simp
  ultimately show ?thesis using ev head j(2) unfolding inv_sorted_def by blast
qed

text \<open>
  An instance: with a limit of one, three calls arrive behind a running task and the first
  of them is aborted while it waits; when the task completes, the second is admitted.
\<close>

theorem fifo_admission_witness:
  "reachable (fold fire [Run plain, Run \<lparr>ro_signal = Some 1, ro_queueTimeoutMs = None\<rparr>,
      Run plain, Run plain, Abort 1] (limiter_of 1)) \<and>
   runs (fold fire [Run plain, Run \<lparr>ro_signal = Some 1, ro_queueTimeoutMs = None\<rparr>,
      Run plain, Run plain, Abort 1] (limiter_of 1)) 2 = Some Waiting \<and>
   runs (fire (TaskDone 0 (Inr 0)) (fold fire [Run plain,
      Run \<lparr>ro_signal = Some 1, ro_queueTimeoutMs = None\<rparr>,
      Run plain, Run plain, Abort 1] (limiter_of 1))) 2 = Some Running \<and>
   queue (fold fire [Run plain, Run \<lparr>ro_signal = Some 1, ro_queueTimeoutMs = None\<rparr>,
      Run plain, Run plain, Abort 1] (limiter_of 1)) = [2, 3] \<and>
   runs (fold fire [Run plain, Run \<lparr>ro_signal = Some 1, ro_queueTimeoutMs = None\<rparr>,
      Run plain, Run plain, Abort 1] (limiter_of 1)) 1 \<noteq> Some Waiting"
proof -
  let ?s = "fold fire [Run plain, Run \<lparr>ro_signal = Some 1, ro_queueTimeoutMs = None\<rparr>,
      Run plain, Run plain, Abort 1] (limiter_of 1)"
  have r: "reachable ?s"
    by (rule reachable_limiter_of) simp
  have w: "runs ?s 2 = Some Waiting" by code_simp
  have a: "runs (fire (TaskDone 0 (Inr 0)) ?s) 2 = Some Running" by code_simp
  have q: "queue ?s = [2, 3]" by code_simp
  from fifo_admission [OF r w a] have "\<forall>e'. e' < 2 \<longrightarrow> runs ?s e' \<noteq> Some Waiting"
    by blast
  then have "runs ?s 1 \<noteq> Some Waiting" by simp
  with r w a q show ?thesis by simp
qed

section \<open>The pending count\<close>

text \<open>
  C8. In every reachable state no entry in the queue array is marked removed, so
  \<^verbatim>\<open>pendingCount\<close>, the length of the array, is the number of live entries in the queue.
\<close>

theorem pendingCount_counts_live:
  assumes "reachable s"
  shows "(\<forall>e\<in>set (queue s). \<not> removed (entries s e)) \<and>
         pendingCount s = length (filter (\<lambda>e. \<not> removed (entries s e)) (queue s))"
proof -
  from reachable_limiter_inv [OF assms] have "inv_queue s"
    unfolding limiter_inv_def struct_inv_def by simp
  then have a: "\<forall>e\<in>set (queue s). \<not> removed (entries s e)"
    unfolding inv_queue_def by simp
  then have "filter (\<lambda>e. \<not> removed (entries s e)) (queue s) = queue s"
    by (simp add: filter_id_conv)
  with a show ?thesis by (simp add: pendingCount_def)
qed

text \<open>An instance: two calls wait, and the first of them is aborted.\<close>

theorem pendingCount_counts_live_witness:
  "reachable (fold fire [Run plain, Run \<lparr>ro_signal = Some 1, ro_queueTimeoutMs = None\<rparr>,
      Run plain, Abort 1] (limiter_of 1)) \<and>
   pendingCount (fold fire [Run plain, Run \<lparr>ro_signal = Some 1, ro_queueTimeoutMs = None\<rparr>,
      Run plain, Abort 1] (limiter_of 1)) = 1 \<and>
   length (filter (\<lambda>e. \<not> removed (entries (fold fire [Run plain,
      Run \<lparr>ro_signal = Some 1, ro_queueTimeoutMs = None\<rparr>,
      Run plain, Abort 1] (limiter_of 1)) e))
     (queue (fold fire [Run plain, Run \<lparr>ro_signal = Some 1, ro_queueTimeoutMs = None\<rparr>,
      Run plain, Abort 1] (limiter_of 1)))) = 1"
proof -
  let ?s = "fold fire [Run plain, Run \<lparr>ro_signal = Some 1, ro_queueTimeoutMs = None\<rparr>,
      Run plain, Abort 1] (limiter_of 1)"
  have r: "reachable ?s"
    by (rule reachable_limiter_of) simp
  have p: "pendingCount ?s = 1" by code_simp
  from pendingCount_counts_live [OF r] p
  have "length (filter (\<lambda>e. \<not> removed (entries ?s e)) (queue ?s)) = 1"
    by simp
  with r p show ?thesis by simp
qed

section \<open>Release and hand-off\<close>

text \<open>
  C3. \<^verbatim>\<open>release\<close>, in any state of the limiter, also one with tombstones in the queue
  or with entries whose waiter lost a race. A live waiter is a queue entry that is neither
  marked removed nor settled. If the queue holds a live waiter, \<^verbatim>\<open>release\<close> resolves
  the first one and no other, leaves \<open>active\<close> as it is, and leaves in the queue what stood
  behind that entry: the removed entries and the entries whose \<^verbatim>\<open>resolve\<close> returned false
  are skipped. If the queue holds no live waiter, \<^verbatim>\<open>release\<close> settles nobody, empties the
  queue, lowers \<open>active\<close> by one, and ends with the idle check.
\<close>

theorem release_handoff:
  "case find (live s) (queue s) of
     Some e \<Rightarrow>
       active (release s) = active s \<and>
       queue (release s) = tl (dropWhile (\<lambda>x. \<not> live s x) (queue s)) \<and>
       runs (release s) = (runs s)(e \<mapsto> Running) \<and>
       (\<forall>x. settled (entries (release s) x) = (x = e \<or> settled (entries s x)))
   | None \<Rightarrow>
       active (release s) = active s - 1 \<and>
       queue (release s) = [] \<and>
       runs (release s) = runs s \<and>
       (\<forall>x. settled (entries (release s) x) = settled (entries s x)) \<and>
       (\<exists>s1. active s1 = active s - 1 \<and> queue s1 = [] \<and> release s = emitIdleIfNeeded s1)"
  using release_handed_off [of s] unfolding handed_off_def .

text \<open>
  An instance: behind a running task wait the calls 1, 2 and 3; entry 1 is marked removed
  but left in the queue, entry 2 is rejected without being removed. \<^verbatim>\<open>release\<close> skips
  the first, fails to resolve the second, and hands the slot to call 3.
\<close>

theorem release_handoff_witness:
  "find (live (snd (defer_reject 2 (Thrown 0) (entry_remove 1
      (fold fire [Run plain, Run plain, Run plain, Run plain] (limiter_of 1))))))
     (queue (snd (defer_reject 2 (Thrown 0) (entry_remove 1
      (fold fire [Run plain, Run plain, Run plain, Run plain] (limiter_of 1)))))) = Some 3 \<and>
   queue (snd (defer_reject 2 (Thrown 0) (entry_remove 1
      (fold fire [Run plain, Run plain, Run plain, Run plain] (limiter_of 1))))) = [1, 2, 3] \<and>
   active (release (snd (defer_reject 2 (Thrown 0) (entry_remove 1
      (fold fire [Run plain, Run plain, Run plain, Run plain] (limiter_of 1)))))) = 1 \<and>
   queue (release (snd (defer_reject 2 (Thrown 0) (entry_remove 1
      (fold fire [Run plain, Run plain, Run plain, Run plain] (limiter_of 1)))))) = [] \<and>
   runs (release (snd (defer_reject 2 (Thrown 0) (entry_remove 1
      (fold fire [Run plain, Run plain, Run plain, Run plain] (limiter_of 1)))))) 3 = Some Running"
proof -
  let ?t = "snd (defer_reject 2 (Thrown 0) (entry_remove 1
      (fold fire [Run plain, Run plain, Run plain, Run plain] (limiter_of 1))))"
  have f: "find (live ?t) (queue ?t) = Some 3" by code_simp
  have q: "queue ?t = [1, 2, 3]" by code_simp
  have a: "active ?t = 1" by code_simp
  have d: "tl (dropWhile (\<lambda>x. \<not> live ?t x) (queue ?t)) = []" by code_simp
  from release_handoff [of ?t] f
  have "active (release ?t) = active ?t"
    "queue (release ?t) = tl (dropWhile (\<lambda>x. \<not> live ?t x) (queue ?t))"
    "runs (release ?t) = (runs ?t)(3 \<mapsto> Running)"
    by simp_all
  with f q a d show ?thesis by simp
qed

section \<open>Refusal before admission\<close>

text \<open>
  C4, as amended. When the effective \<^verbatim>\<open>queueTimeoutMs\<close> is valid (absent, or finite and
  not negative): if the effective signal is already aborted, \<^verbatim>\<open>run\<close> rejects with an
  AbortError; otherwise, if \<open>active \<ge> limit\<close> and \<open>queue.length \<ge> maxQueue\<close>, it
  rejects with a QueueOverflowError. In both cases the state of the limiter is the state
  before the call: no entry is made, \<open>active\<close> and the queue are as they were.
\<close>

theorem run_refused_unchanged:
  assumes "assertValidTimeoutMs
             (nullish (ro_queueTimeoutMs options) (defaultQueueTimeoutMs s)) = None"
  shows "(is_aborted (nullish (ro_signal options) (defaultSignal s)) s \<longrightarrow>
            run options s = (Inl AbortError, s)) \<and>
         (\<not> is_aborted (nullish (ro_signal options) (defaultSignal s)) s \<and>
          js_le (limit s) (Fin (of_int (active s))) \<and>
          js_le (maxQueue s) (Fin (of_nat (length (queue s)))) \<longrightarrow>
            run options s = (Inl QueueOverflowError, s))"
  using assms
  by (auto simp: run_def Let_def acquire_def dest: js_le_not_lt)

text \<open>
  Two instances: a call with an aborted signal on a free limiter, and a plain call on a
  limiter with \<^verbatim>\<open>maxQueue: 0\<close> whose only slot is taken.
\<close>

theorem run_refused_unchanged_witness:
  "is_aborted (Some 1) (fire (Abort 1) (limiter_of 2)) \<and>
   run \<lparr>ro_signal = Some 1, ro_queueTimeoutMs = Some (Fin 50)\<rparr> (fire (Abort 1) (limiter_of 2)) =
     (Inl AbortError, fire (Abort 1) (limiter_of 2)) \<and>
   js_le (limit (fire (Run plain) (limiter_with 1 no_queue)))
     (Fin (of_int (active (fire (Run plain) (limiter_with 1 no_queue))))) \<and>
   js_le (maxQueue (fire (Run plain) (limiter_with 1 no_queue)))
     (Fin (of_nat (length (queue (fire (Run plain) (limiter_with 1 no_queue)))))) \<and>
   run plain (fire (Run plain) (limiter_with 1 no_queue)) =
     (Inl QueueOverflowError, fire (Run plain) (limiter_with 1 no_queue))"
proof -
  let ?o = "\<lparr>ro_signal = Some 1, ro_queueTimeoutMs = Some (Fin 50)\<rparr>"
  let ?s = "fire (Abort 1) (limiter_of 2)"
  let ?t = "fire (Run plain) (limiter_with 1 no_queue)"
  have v1: "assertValidTimeoutMs (nullish (ro_queueTimeoutMs ?o) (defaultQueueTimeoutMs ?s)) = None"
    by code_simp
  have a1: "is_aborted (nullish (ro_signal ?o) (defaultSignal ?s)) ?s" by code_simp
  have a1': "is_aborted (Some 1) ?s" by code_simp
  have v2: "assertValidTimeoutMs (nullish (ro_queueTimeoutMs plain) (defaultQueueTimeoutMs ?t)) = None"
    by code_simp
  have a2: "\<not> is_aborted (nullish (ro_signal plain) (defaultSignal ?t)) ?t" by code_simp
  have l2: "js_le (limit ?t) (Fin (of_int (active ?t)))" by code_simp
  have m2: "js_le (maxQueue ?t) (Fin (of_nat (length (queue ?t))))" by code_simp
  from run_refused_unchanged [OF v1] a1 have r1: "run ?o ?s = (Inl AbortError, ?s)" by blast
  from run_refused_unchanged [OF v2] a2 l2 m2 have r2: "run plain ?t = (Inl QueueOverflowError, ?t)"
    by blast
  from a1' r1 l2 m2 r2 show ?thesis by simp
qed

text \<open>
  C4 as stated fails when the effective \<^verbatim>\<open>queueTimeoutMs\<close> is invalid: with a signal that
  is already aborted and a timeout that is NaN, and with a full limiter and a timeout of
  \<open>-1\<close>, \<^verbatim>\<open>run\<close> rejects with a RangeError, not with the AbortError or the
  QueueOverflowError of the claim.
\<close>

theorem run_refused_not_always:
  "is_aborted (Some 1) (fire (Abort 1) (limiter_of 2)) \<and>
   fst (run \<lparr>ro_signal = Some 1, ro_queueTimeoutMs = Some NaN\<rparr> (fire (Abort 1) (limiter_of 2))) =
     Inl RangeError \<and>
   fst (run \<lparr>ro_signal = Some 1, ro_queueTimeoutMs = Some NaN\<rparr> (fire (Abort 1) (limiter_of 2))) \<noteq>
     Inl AbortError \<and>
   js_le (limit (fire (Run plain) (limiter_with 1 no_queue)))
     (Fin (of_int (active (fire (Run plain) (limiter_with 1 no_queue))))) \<and>
   js_le (maxQueue (fire (Run plain) (limiter_with 1 no_queue)))
     (Fin (of_nat (length (queue (fire (Run plain) (limiter_with 1 no_queue)))))) \<and>
   fst (run \<lparr>ro_signal = None, ro_queueTimeoutMs = Some (Fin (- 1))\<rparr>
          (fire (Run plain) (limiter_with 1 no_queue))) = Inl RangeError \<and>
   fst (run \<lparr>ro_signal = None, ro_queueTimeoutMs = Some (Fin (- 1))\<rparr>
          (fire (Run plain) (limiter_with 1 no_queue))) \<noteq> Inl QueueOverflowError"
  by code_simp

section \<open>Waiting for idle\<close>

text \<open>
  C5, as amended. For a call of \<^verbatim>\<open>onIdle\<close> with a valid \<^verbatim>\<open>timeoutMs\<close> and a signal
  that is not already aborted: it resolves at once if and only if the limiter is idle
  (\<open>active = 0\<close> and \<open>pendingCount = 0\<close>), and then it registers nothing, the state is
  unchanged; otherwise it waits, unsettled. A waiting call is resolved only by an event
  after which the limiter is idle. Whenever the limiter is idle, no call of
  \<^verbatim>\<open>onIdle\<close> is left waiting. And an event after which the limiter is idle resolves
  every call that was waiting before it, successfully: none of them is rejected there,
  and none stays unsettled.
\<close>

theorem onIdle_resolves_iff_idle:
  assumes "reachable s"
  shows "(assertValidTimeoutMs (io_timeoutMs options) = None \<and>
          \<not> is_aborted (io_signal options) s \<longrightarrow>
            (fst (onIdle options s) = Inr None) = (active s = 0 \<and> pendingCount s = 0) \<and>
            (active s = 0 \<and> pendingCount s = 0 \<longrightarrow> onIdle options s = (Inr None, s)) \<and>
            (\<not> (active s = 0 \<and> pendingCount s = 0) \<longrightarrow>
               fst (onIdle options s) = Inr (Some (next_idle s)) \<and>
               i_result (idles (snd (onIdle options s)) (next_idle s)) = None)) \<and>
         (\<forall>w ev. i_result (idles s w) \<noteq> Some (Inr ()) \<and>
                  i_result (idles (fire ev s) w) = Some (Inr ()) \<longrightarrow>
                    active (fire ev s) = 0 \<and> pendingCount (fire ev s) = 0) \<and>
         (active s = 0 \<and> pendingCount s = 0 \<longrightarrow>
            (\<forall>w. w < next_idle s \<longrightarrow> i_result (idles s w) \<noteq> None)) \<and>
         (\<forall>w ev. w < next_idle s \<and> i_result (idles s w) = None \<and>
                  active (fire ev s) = 0 \<and> pendingCount (fire ev s) = 0 \<longrightarrow>
                    i_result (idles (fire ev s) w) = Some (Inr ()))"
proof (intro conjI impI allI)
  assume v: "assertValidTimeoutMs (io_timeoutMs options) = None \<and>
    \<not> is_aborted (io_signal options) s"
  show "(fst (onIdle options s) = Inr None) = (active s = 0 \<and> pendingCount s = 0)"
  proof (cases "active s = 0 \<and> queue s = []")
    case True
    then show ?thesis using onIdle_immediate [of options s] v by (simp add: pendingCount_def)
  next
    case False
    then show ?thesis using onIdle_waits [of options s] v by (auto simp: pendingCount_def)
  qed
next
  assume "assertValidTimeoutMs (io_timeoutMs options) = None \<and>
    \<not> is_aborted (io_signal options) s"
    and "active s = 0 \<and> pendingCount s = 0"
  then show "onIdle options s = (Inr None, s)"
    using onIdle_immediate [of options s] by (simp add: pendingCount_def)
next
  assume v: "assertValidTimeoutMs (io_timeoutMs options) = None \<and>
    \<not> is_aborted (io_signal options) s"
    and n: "\<not> (active s = 0 \<and> pendingCount s = 0)"
  from n have n': "\<not> (active s = 0 \<and> queue s = [])" by (simp add: pendingCount_def)
  from onIdle_waits [of options s] v n'
  show "fst (onIdle options s) = Inr (Some (next_idle s))" by simp
  from onIdle_waits [of options s] v n' registered_idle_pending [OF n', of options]
  show "i_result (idles (snd (onIdle options s)) (next_idle s)) = None" by simp
next
  fix w ev
  assume a: "i_result (idles s w) \<noteq> Some (Inr ()) \<and>
    i_result (idles (fire ev s) w) = Some (Inr ())"
  from resolved_fire [OF reachable_limiter_inv [OF assms], of ev w] a
  have i: "is_idle (fire ev s)" by (auto simp: resolved_def)
  from i show "active (fire ev s) = 0" by (simp add: is_idle_def)
  from i show "pendingCount (fire ev s) = 0" by (simp add: is_idle_def pendingCount_def)
next
  fix w
  assume i: "active s = 0 \<and> pendingCount s = 0" and w: "w < next_idle s"
  from reachable_idle_inv [OF assms] have st: "idle_struct s" and dr: "idle_drained s"
    unfolding idle_inv_def by simp_all
  from i dr have e: "idleWaiters s = []" unfolding idle_drained_def by (simp add: pendingCount_def)
  from st have b2: "\<And>v. v < next_idle s \<Longrightarrow> \<not> i_done (idles s v) \<Longrightarrow> v \<in> set (idleWaiters s)"
    and b3: "\<And>v. i_done (idles s v) = (i_result (idles s v) \<noteq> None)"
    unfolding idle_struct_def by blast+
  from b2 [OF w] e have "i_done (idles s w)" by auto
  then show "i_result (idles s w) \<noteq> None" using b3 [of w] by simp
next
  fix w ev
  assume a: "w < next_idle s \<and> i_result (idles s w) = None \<and>
    active (fire ev s) = 0 \<and> pendingCount (fire ev s) = 0"
  then have "is_idle (fire ev s)" by (simp add: is_idle_def pendingCount_def)
  with a idle_resolves_waiting [OF assms, of w ev]
  show "i_result (idles (fire ev s) w) = Some (Inr ())" by blast
qed

text \<open>
  An instance: \<^verbatim>\<open>onIdle\<close> on a fresh limiter returns at once; called while a task
  runs, it waits, and the completion of the task resolves it, leaving the limiter idle.
\<close>

definition any_idle :: IdleOptions where
  "any_idle = \<lparr>io_signal = None, io_timeoutMs = None\<rparr>"

theorem onIdle_resolves_iff_idle_witness:
  "reachable (limiter_of 1) \<and>
   onIdle any_idle (limiter_of 1) = (Inr None, limiter_of 1) \<and>
   reachable (fold fire [Run plain, OnIdle any_idle] (limiter_of 1)) \<and>
   i_result (idles (fold fire [Run plain, OnIdle any_idle] (limiter_of 1)) 0) = None \<and>
   i_result (idles (fire (TaskDone 0 (Inr 0))
      (fold fire [Run plain, OnIdle any_idle] (limiter_of 1))) 0) = Some (Inr ()) \<and>
   active (fire (TaskDone 0 (Inr 0)) (fold fire [Run plain, OnIdle any_idle] (limiter_of 1))) = 0 \<and>
   pendingCount (fire (TaskDone 0 (Inr 0))
      (fold fire [Run plain, OnIdle any_idle] (limiter_of 1))) = 0"
proof -
  let ?s = "fold fire [Run plain, OnIdle any_idle] (limiter_of 1)"
  have r0: "reachable (limiter_of 1)"
    using reachable_limiter_of [of 1 "[]"] by simp
  have v0: "assertValidTimeoutMs (io_timeoutMs any_idle) = None \<and>
    \<not> is_aborted (io_signal any_idle) (limiter_of 1)" by code_simp
  have i0: "active (limiter_of 1) = 0 \<and> pendingCount (limiter_of 1) = 0" by code_simp
  from onIdle_resolves_iff_idle [OF r0, of any_idle] v0 i0
  have o: "onIdle any_idle (limiter_of 1) = (Inr None, limiter_of 1)" by blast
  have r: "reachable ?s"
    by (rule reachable_limiter_of) simp
  have p: "i_result (idles ?s 0) = None" by code_simp
  have n: "0 < next_idle ?s" by code_simp
  have z: "active (fire (TaskDone 0 (Inr 0)) ?s) = 0 \<and>
    pendingCount (fire (TaskDone 0 (Inr 0)) ?s) = 0" by code_simp
  from onIdle_resolves_iff_idle [OF r, of any_idle] n p z
  have q: "i_result (idles (fire (TaskDone 0 (Inr 0)) ?s) 0) = Some (Inr ())" by blast
  from p have p': "i_result (idles ?s 0) \<noteq> Some (Inr ())" by (simp only:) simp
  from onIdle_resolves_iff_idle [OF r, of any_idle] p' q
  have "active (fire (TaskDone 0 (Inr 0)) ?s) = 0 \<and> pendingCount (fire (TaskDone 0 (Inr 0)) ?s) = 0"
    by blast
  with r0 o r p q show ?thesis by blast
qed

text \<open>
  C5 as stated fails for an invalid \<^verbatim>\<open>timeoutMs\<close>: on an idle limiter and without a
  signal, \<^verbatim>\<open>onIdle({ timeoutMs: -1 })\<close> does not resolve, it rejects with a RangeError.
\<close>

theorem onIdle_idle_rejects:
  "active (limiter_of 1) = 0 \<and> pendingCount (limiter_of 1) = 0 \<and>
   \<not> is_aborted (io_signal \<lparr>io_signal = None, io_timeoutMs = Some (Fin (- 1))\<rparr>) (limiter_of 1) \<and>
   fst (onIdle \<lparr>io_signal = None, io_timeoutMs = Some (Fin (- 1))\<rparr> (limiter_of 1)) =
     Inl RangeError \<and>
   fst (onIdle \<lparr>io_signal = None, io_timeoutMs = Some (Fin (- 1))\<rparr> (limiter_of 1)) \<noteq>
     Inr None"
  by code_simp

section \<open>The Defer settles once\<close>

text \<open>
  C6. For the waiter of a queue entry that is not yet settled, the first call of
  \<^verbatim>\<open>resolve\<close> or \<^verbatim>\<open>reject\<close> returns true and settles it: the flag
  \<open>settled\<close> is set, and the promise that the queued call of \<^verbatim>\<open>run\<close> awaits is
  settled, so that the call is admitted (\<open>Running\<close>) after \<^verbatim>\<open>resolve\<close> and has
  failed with the error \<open>err\<close> after \<^verbatim>\<open>reject(err)\<close>; no other call is touched. From
  then on, after any events of the limiter and however often, a call of \<^verbatim>\<open>resolve\<close>
  or \<^verbatim>\<open>reject\<close> returns false and changes nothing.
\<close>

theorem defer_settles_once:
  assumes "e < next_run s" and "\<not> settled (entries s e)"
  shows "fst (defer_call e c s) \<and> settled (entries (snd (defer_call e c s)) e) \<and>
         runs (snd (defer_call e c s)) =
           (runs s)(e \<mapsto> (case c of Resolve \<Rightarrow> Running | Reject err \<Rightarrow> Finished (Inl err))) \<and>
         (\<forall>evs c'. defer_call e c' (fold fire evs (snd (defer_call e c s))) =
                     (False, fold fire evs (snd (defer_call e c s))))"
proof -
  let ?s1 = "snd (defer_call e c s)"
  from defer_call_first [OF assms(2), of c]
  have f: "fst (defer_call e c s)" "settled (entries ?s1 e)" "next_run ?s1 = next_run s"
    by simp_all
  have "defer_call e c' (fold fire evs ?s1) = (False, fold fire evs ?s1)" for evs c'
    using settled_fold_fire [of e ?s1 evs] assms(1) f(2,3)
    by (intro defer_call_settled) simp
  with f defer_call_runs [OF assms(2), of c] show ?thesis by simp
qed

text \<open>
  An instance: the waiter of a queued call is resolved, and the call goes from waiting to
  running; after the running task has completed, a late \<^verbatim>\<open>reject\<close> returns false and
  leaves the state alone.
\<close>

theorem defer_settles_once_witness:
  "1 < next_run (fold fire [Run plain, Run plain] (limiter_of 1)) \<and>
   \<not> settled (entries (fold fire [Run plain, Run plain] (limiter_of 1)) 1) \<and>
   fst (defer_call 1 Resolve (fold fire [Run plain, Run plain] (limiter_of 1))) \<and>
   runs (fold fire [Run plain, Run plain] (limiter_of 1)) 1 = Some Waiting \<and>
   runs (snd (defer_call 1 Resolve (fold fire [Run plain, Run plain] (limiter_of 1)))) 1 =
     Some Running \<and>
   defer_call 1 (Reject AbortError)
     (fold fire [TaskDone 0 (Inr 0)]
        (snd (defer_call 1 Resolve (fold fire [Run plain, Run plain] (limiter_of 1))))) =
     (False, fold fire [TaskDone 0 (Inr 0)]
        (snd (defer_call 1 Resolve (fold fire [Run plain, Run plain] (limiter_of 1)))))"
proof -
  let ?s = "fold fire [Run plain, Run plain] (limiter_of 1)"
  have a: "1 < next_run ?s" by code_simp
  have b: "\<not> settled (entries ?s 1)" by code_simp
  have w: "runs ?s 1 = Some Waiting" by code_simp
  from defer_settles_once [OF a b, of Resolve]
  have r: "runs (snd (defer_call 1 Resolve ?s)) = (runs ?s)(1 \<mapsto> Running)"
    by (simp only: defer_op.case)
  have "runs (snd (defer_call 1 Resolve ?s)) 1 = Some Running"
    by (simp only: r fun_upd_same)
  with defer_settles_once [OF a b, of Resolve] a b w show ?thesis by blast
qed

section \<open>Completion of a task\<close>

text \<open>
  C9, as amended. For every admitted call, when its task settles, whether it returns or
  throws, \<^verbatim>\<open>run\<close> calls \<^verbatim>\<open>release\<close> once and then settles with the outcome of the task
  unchanged (the same value, the same error). \<^verbatim>\<open>release\<close> lowers \<open>active\<close> by one only
  when the queue holds no live waiter; otherwise it hands the slot to the first live
  waiter and \<open>active\<close> stays as it is. A call that has settled does not release again.
\<close>

theorem run_finally_releases:
  assumes "runs s r = Some Running"
  shows "fire (TaskDone r res) s = (release s)\<lparr>runs := (runs (release s))(r \<mapsto> Finished res)\<rparr> \<and>
         runs (fire (TaskDone r res) s) r = Some (Finished res) \<and>
         active (fire (TaskDone r res) s) =
           (case find (live s) (queue s) of Some e \<Rightarrow> active s | None \<Rightarrow> active s - 1) \<and>
         fire (TaskDone r res') (fire (TaskDone r res) s) = fire (TaskDone r res) s"
  using assms release_handed_off [of s]
  by (auto simp: run_finally_eq handed_off_def split: option.splits)

text \<open>An instance: the running task throws while another call waits.\<close>

theorem run_finally_releases_witness:
  "runs (fold fire [Run plain, Run plain] (limiter_of 1)) 0 = Some Running \<and>
   runs (fire (TaskDone 0 (Inl (Thrown 7))) (fold fire [Run plain, Run plain] (limiter_of 1))) 0 =
     Some (Finished (Inl (Thrown 7))) \<and>
   find (live (fold fire [Run plain, Run plain] (limiter_of 1)))
     (queue (fold fire [Run plain, Run plain] (limiter_of 1))) = Some 1 \<and>
   active (fire (TaskDone 0 (Inl (Thrown 7))) (fold fire [Run plain, Run plain] (limiter_of 1))) =
     active (fold fire [Run plain, Run plain] (limiter_of 1))"
proof -
  let ?s = "fold fire [Run plain, Run plain] (limiter_of 1)"
  have r: "runs ?s 0 = Some Running" by code_simp
  have f: "find (live ?s) (queue ?s) = Some 1" by code_simp
  from run_finally_releases [OF r, of "Inl (Thrown 7)"]
  have x: "runs (fire (TaskDone 0 (Inl (Thrown 7))) ?s) 0 = Some (Finished (Inl (Thrown 7)))"
    and y: "active (fire (TaskDone 0 (Inl (Thrown 7))) ?s) =
      (case find (live ?s) (queue ?s) of Some e \<Rightarrow> active ?s | None \<Rightarrow> active ?s - 1)"
    by blast+
  have z: "active (fire (TaskDone 0 (Inl (Thrown 7))) ?s) = active ?s"
    unfolding y f by (simp only: option.case)
  from r x f z show ?thesis by blast
qed

text \<open>
  C9 as stated fails where a call waits: with a limit of one, a running task and one
  queued call, the completion of the task leaves \<open>active\<close> at \<open>1\<close>; it is not
  decremented, the slot goes to the waiting call.
\<close>

theorem completion_keeps_active:
  "runs (fold fire [Run plain, Run plain] (limiter_of 1)) 0 = Some Running \<and>
   active (fold fire [Run plain, Run plain] (limiter_of 1)) = 1 \<and>
   active (fire (TaskDone 0 (Inr 0)) (fold fire [Run plain, Run plain] (limiter_of 1))) = 1 \<and>
   runs (fire (TaskDone 0 (Inr 0)) (fold fire [Run plain, Run plain] (limiter_of 1))) 1 =
     Some Running"
  by code_simp

section \<open>Removal of a queue entry\<close>

text \<open>
  C7. Removal is idempotent on both paths: a second call of an entry's \<^verbatim>\<open>remove\<close>, or of
  \<^verbatim>\<open>removeFromQueue\<close>, leaves the state that the first call made. In every reachable
  state an entry is marked removed exactly when its waiter is settled (by admission, abort
  or timeout), the cleanup list of a removed entry is empty, and every cleanup closure made
  for the entry (the abort-listener detachment, the timer cancellation) has been called
  exactly once if the entry is removed and not at all if it is not.
\<close>

theorem removal_once:
  "entry_remove e (entry_remove e s) = entry_remove e s \<and>
   removeFromQueue e (removeFromQueue e s) = removeFromQueue e s \<and>
   (reachable s \<longrightarrow>
      removed (entries s e) = settled (entries s e) \<and>
      cleanup (entries s e) = (if removed (entries s e) then [] else closures_of s e) \<and>
      (\<forall>f\<in>set (closures_of s e).
         count_list (invoked s) f = (if removed (entries s e) then 1 else 0)))"
proof -
  have "removed (entries s e) = settled (entries s e)" if "reachable s"
    using reachable_limiter_inv [OF that]
    unfolding limiter_inv_def struct_inv_def inv_flags_def by simp
  moreover have "cleanup (entries s e) = (if removed (entries s e) then [] else closures_of s e) \<and>
      (\<forall>f\<in>set (closures_of s e).
         count_list (invoked s) f = (if removed (entries s e) then 1 else 0))" if "reachable s"
    using reachable_log_inv [OF that] unfolding log_inv_def by blast
  ultimately show ?thesis
    using entry_remove_idem removeFromQueue_idem by blast
qed

text \<open>
  An instance: behind a running task, call 1 is aborted, call 2 times out and call 3 is
  admitted; each has a signal and a timeout. All three entries are removed and each of
  their closures was called once.
\<close>

definition three_removals :: state where
  "three_removals =
     fold fire
       [Run plain,
        Run \<lparr>ro_signal = Some 1, ro_queueTimeoutMs = Some (Fin 50)\<rparr>,
        Run \<lparr>ro_signal = Some 2, ro_queueTimeoutMs = Some (Fin 50)\<rparr>,
        Run \<lparr>ro_signal = Some 2, ro_queueTimeoutMs = Some (Fin 50)\<rparr>,
        Abort 1, TimerFires (EntryTimer 2), TaskDone 0 (Inr 0)]
       (limiter_of 1)"

theorem removal_once_witness:
  "reachable three_removals \<and>
   runs three_removals 1 = Some (Finished (Inl AbortError)) \<and>
   runs three_removals 2 = Some (Finished (Inl QueueTimeoutError)) \<and>
   runs three_removals 3 = Some Running \<and>
   removed (entries three_removals 1) \<and>
   removed (entries three_removals 2) \<and>
   removed (entries three_removals 3) \<and>
   count_list (invoked three_removals) (RemoveAbortListener 1 (EntryAbort 1)) = 1 \<and>
   count_list (invoked three_removals) (ClearTimeout (EntryTimer 2)) = 1 \<and>
   count_list (invoked three_removals) (ClearTimeout (EntryTimer 3)) = 1"
proof -
  have r: "reachable three_removals"
    unfolding three_removals_def by (rule reachable_limiter_of) simp
  have p: "runs three_removals 1 = Some (Finished (Inl AbortError))"
    "runs three_removals 2 = Some (Finished (Inl QueueTimeoutError))"
    "runs three_removals 3 = Some Running"
    by code_simp+
  have m: "removed (entries three_removals 1)" "removed (entries three_removals 2)"
    "removed (entries three_removals 3)"
    by code_simp+
  have c: "RemoveAbortListener 1 (EntryAbort 1) \<in> set (closures_of three_removals 1)"
    "ClearTimeout (EntryTimer 2) \<in> set (closures_of three_removals 2)"
    "ClearTimeout (EntryTimer 3) \<in> set (closures_of three_removals 3)"
    by code_simp+
  have "count_list (invoked three_removals) (RemoveAbortListener 1 (EntryAbort 1)) = 1"
    using removal_once [of 1 three_removals] r m(1) c(1) by auto
  moreover have "count_list (invoked three_removals) (ClearTimeout (EntryTimer 2)) = 1"
    using removal_once [of 2 three_removals] r m(2) c(2) by auto
  moreover have "count_list (invoked three_removals) (ClearTimeout (EntryTimer 3)) = 1"
    using removal_once [of 3 three_removals] r m(3) c(3) by auto
  ultimately show ?thesis using r p m by blast
qed

section \<open>Validation comes first in run\<close>

text \<open>
  C10. \<^verbatim>\<open>run\<close> validates its effective \<^verbatim>\<open>queueTimeoutMs\<close> before it looks at the
  cancel signal: whenever the effective timeout is negative or not finite, \<^verbatim>\<open>run\<close>
  fails with a RangeError and leaves the state of the limiter as it was, whatever the signal
  and whether or not a slot is free.
\<close>

theorem run_invalid_timeout_RangeError:
  assumes "nullish (ro_queueTimeoutMs options) (defaultQueueTimeoutMs s) = Some ms"
    and "\<not> isFinite ms \<or> js_lt ms (Fin 0)"
  shows "run options s = (Inl RangeError, s)"
  using assms by (auto simp: run_def Let_def assertValidTimeoutMs_def)

text \<open>An instance: a free slot, a signal that is already aborted, a timeout of \<open>-1\<close>.\<close>

theorem run_invalid_timeout_RangeError_witness:
  "is_aborted (Some 1) (fire (Abort 1) (limiter_of 1)) \<and>
   js_lt (Fin (of_int (active (fire (Abort 1) (limiter_of 1))))) (limit (fire (Abort 1) (limiter_of 1))) \<and>
   run \<lparr>ro_signal = Some 1, ro_queueTimeoutMs = Some (Fin (- 1))\<rparr> (fire (Abort 1) (limiter_of 1)) =
     (Inl RangeError, fire (Abort 1) (limiter_of 1))"
proof -
  have a: "is_aborted (Some 1) (fire (Abort 1) (limiter_of 1))"
    by code_simp
  have b: "js_lt (Fin (of_int (active (fire (Abort 1) (limiter_of 1)))))
             (limit (fire (Abort 1) (limiter_of 1)))"
    by code_simp
  have c: "nullish (ro_queueTimeoutMs \<lparr>ro_signal = Some 1, ro_queueTimeoutMs = Some (Fin (- 1))\<rparr>)
             (defaultQueueTimeoutMs (fire (Abort 1) (limiter_of 1))) = Some (Fin (- 1))"
    by code_simp
  have d: "\<not> isFinite (Fin (- 1)) \<or> js_lt (Fin (- 1)) (Fin 0)"
    by simp
  show ?thesis
    using a b run_invalid_timeout_RangeError [OF c d] by simp
qed

end
